theory Spec2Isabelle
  imports Complex_Main "HOL-Library.Word"
begin

section \<open>Machine model\<close>

text \<open>
  The C sources (\<^verbatim>\<open>mplp.h\<close>, \<^verbatim>\<open>snp.c\<close>, \<^verbatim>\<open>snp.h\<close>) are embedded as follows.
  \<^item> \<^verbatim>\<open>size_t\<close> is a 64-bit word; \<^verbatim>\<open>%ld\<close> prints its two's-complement reading.
  \<^item> \<^verbatim>\<open>int\<close> and \<^verbatim>\<open>int8_t\<close> scalars (indices, counts of names, return codes) are
    mathematical integers; none of the embedded functions does arithmetic on them
    beyond counting a loop up to a small bound.
  \<^item> \<^verbatim>\<open>double\<close> is \<open>real\<close>: rounding error and infinities are not represented.
    Where the source takes \<^verbatim>\<open>log\<close> of a value that may be non-positive the result is a
    value of type \<open>logval\<close>, which keeps \<open>-inf\<close> and \<open>NaN\<close> apart from the finite
    results. Where a double is printed (the likelihoods \<open>gl\<close> of a sample) it is a
    value of type \<open>c_double\<close>, which keeps the sign of zero, because \<^verbatim>\<open>%.0f\<close> prints
    it.
  \<^item> A fixed-size array of a struct is a list; the theorems assume the declared length.
  \<^item> A pointer that may be \<^verbatim>\<open>NULL\<close> is an \<open>option\<close>.
  \<^item> Undefined behaviour of the C program (a read or write outside an array, a
    dereferenced \<^verbatim>\<open>NULL\<close>) is a value \<open>Inl fault\<close> of the result.
\<close>

type_synonym size_t = "64 word"

datatype fault = OutOfBounds | BufferOverflow | NullDeref

subsection \<open>Formatted output\<close>

text \<open>
  \<^verbatim>\<open>kstring_t\<close> buffers are strings; \<^verbatim>\<open>kputs\<close>, \<^verbatim>\<open>kputc\<close> and \<^verbatim>\<open>ksprintf\<close> append.
  \<open>dec_int\<close> is the decimal conversion of \<^verbatim>\<open>%d\<close> and \<^verbatim>\<open>%ld\<close>.
\<close>

definition digit_char :: "nat \<Rightarrow> char" where
  "digit_char d = ''0123456789'' ! d"

fun dec_nat :: "nat \<Rightarrow> string" where
  "dec_nat n = (if n < 10 then [digit_char n] else dec_nat (n div 10) @ [digit_char (n mod 10)])"

declare dec_nat.simps [simp del]

definition dec_int :: "int \<Rightarrow> string" where
  "dec_int i = (if i < 0 then CHR ''-'' # dec_nat (nat (- i)) else dec_nat (nat i))"

text \<open>\<^verbatim>\<open>%d\<close> applied to an \<^verbatim>\<open>int\<close>.\<close>

definition fmt_d :: "int \<Rightarrow> string" where
  "fmt_d i = dec_int i"

text \<open>\<^verbatim>\<open>%ld\<close> applied to a \<^verbatim>\<open>size_t\<close>: the 64 bits are read as a signed long.\<close>

definition fmt_ld :: "size_t \<Rightarrow> string" where
  "fmt_ld w = dec_int (sint w)"

text \<open>
  A printed double: \<open>Dbl x\<close> is the double of value \<open>x\<close> (\<open>Dbl 0\<close> is \<open>+0.0\<close>) and
  \<open>NegZero\<close> is \<open>-0.0\<close>. \<open>dval\<close> is the value and \<open>signbit\<close> the sign bit. The product
  of two doubles has the product of the values; when that is zero its sign bit is set
  exactly when the sign bits of the factors differ. Values are finite and exact:
  infinities, NaN and the rounding error of the product are not represented.
\<close>

datatype c_double = Dbl real | NegZero

fun dval :: "c_double \<Rightarrow> real" where
  "dval (Dbl x) = x"
| "dval NegZero = 0"

fun signbit :: "c_double \<Rightarrow> bool" where
  "signbit (Dbl x) = (x < 0)"
| "signbit NegZero = True"

definition c_times :: "c_double \<Rightarrow> c_double \<Rightarrow> c_double" where
  "c_times a b =
     (let v = dval a * dval b
      in if v = 0 then (if signbit a \<noteq> signbit b then NegZero else Dbl 0) else Dbl v)"

text \<open>
  Rounding to the nearest integer, a tie going to the even neighbour (the C library's
  default rounding mode).
\<close>

definition c_round_half_even :: "real \<Rightarrow> int" where
  "c_round_half_even x =
     (let f = \<lfloor>x\<rfloor>; d = x - of_int f
      in if d < 1 / 2 then f else if 1 / 2 < d then f + 1 else if even f then f else f + 1)"

text \<open>
  \<^verbatim>\<open>%.0f\<close>: a minus sign when the sign bit is set, then the magnitude rounded to an
  integer, in decimal. So \<open>-0.0\<close> and every negative value that rounds to zero print as
  \<open>-0\<close>.
\<close>

definition fmt_f0 :: "c_double \<Rightarrow> string" where
  "fmt_f0 d = (if signbit d then ''-'' else []) @ dec_nat (nat (c_round_half_even \<bar>dval d\<bar>))"

subsection \<open>Numeric helpers of \<^verbatim>\<open>jnumeric.h\<close>\<close>

text \<open>
  Modelled from the spec: the header \<^verbatim>\<open>jnumeric.h\<close> with \<^verbatim>\<open>max2\<close>, \<^verbatim>\<open>min2\<close> and the
  family \<^verbatim>\<open>SZ_NUMERIC_OP_INIT\<close> (\<^verbatim>\<open>get_idx_of_max\<close>, \<^verbatim>\<open>join_arr_to_str\<close>) is not among
  the sources. \<open>max2\<close> and \<open>min2\<close> are the clamp of section 4.3.
\<close>

definition max2 :: "real \<Rightarrow> real \<Rightarrow> real" where
  "max2 a b = (if a > b then a else b)"

definition min2 :: "real \<Rightarrow> real \<Rightarrow> real" where
  "min2 a b = (if a < b then a else b)"

text \<open>
  Modelled from the spec: \<^verbatim>\<open>get_idx_of_max\<close> of \<^verbatim>\<open>jnumeric.h\<close>, the arg-max over the first
  \<open>n\<close> entries with "ties resolved by first-encountered, i.e., lowest class index"
  (section 4.5): a later entry replaces the running maximum only when strictly greater.
\<close>

function idx_of_max_loop :: "real list \<Rightarrow> nat \<Rightarrow> nat \<Rightarrow> nat \<Rightarrow> nat" where
  "idx_of_max_loop a n i m =
     (if i < n then idx_of_max_loop a n (Suc i) (if a ! i > a ! m then i else m) else m)"
  by pat_completeness auto
termination
  by (relation "measure (\<lambda>(a, n, i, m). n - i)") auto

declare idx_of_max_loop.simps [simp del]

definition get_idx_of_max :: "real list \<Rightarrow> nat \<Rightarrow> nat" where
  "get_idx_of_max a n = idx_of_max_loop a n 1 0"

text \<open>
  Modelled from the spec: \<^verbatim>\<open>join_arr_to_str\<close> of \<^verbatim>\<open>jnumeric.h\<close>, which appends the first
  \<open>n\<close> entries, each printed with the given format and joined by the separator
  ("the 5-base comma-joined count vector", section 4.5), and returns how many entries
  it wrote.
\<close>

fun join_with :: "char \<Rightarrow> string list \<Rightarrow> string" where
  "join_with c [] = []"
| "join_with c [x] = x"
| "join_with c (x # y # ys) = x @ c # join_with c (y # ys)"

definition join_arr_to_str :: "('a \<Rightarrow> string) \<Rightarrow> 'a list \<Rightarrow> int \<Rightarrow> char \<Rightarrow> string \<Rightarrow> int \<times> string" where
  "join_arr_to_str fmt a n c s =
     (let xs = take (nat n) a in (int (length xs), s @ join_with c (map fmt xs)))"

section \<open>Genotype likelihood model\<close>

subsection \<open>\<^verbatim>\<open>get_qual_vector\<close>\<close>

text \<open>
  The C library's \<^verbatim>\<open>log\<close>: finite on a positive argument, \<open>-inf\<close> at zero and \<open>NaN\<close>
  below. (In HOL \<open>ln 0 = 0\<close>, which is not what the program computes.)
\<close>

datatype logval = Finite real | MinusInf | NaN

definition c_log :: "real \<Rightarrow> logval" where
  "c_log x = (if 0 < x then Finite (ln x) else if x = 0 then MinusInf else NaN)"

text \<open>The comparison \<^verbatim>\<open>a >= b\<close> of two such values; it is false when either is \<open>NaN\<close>.\<close>

fun logval_ge :: "logval \<Rightarrow> logval \<Rightarrow> bool" where
  "logval_ge (Finite a) (Finite b) = (b \<le> a)"
| "logval_ge (Finite a) MinusInf = True"
| "logval_ge MinusInf MinusInf = True"
| "logval_ge MinusInf (Finite b) = False"
| "logval_ge NaN b = False"
| "logval_ge a NaN = False"

text \<open>
  \<^verbatim>\<open>get_qual_vector(qual, cap_bq, min_bq, rv)\<close> writes \<open>rv[0..3]\<close> and returns 0; the
  embedding returns the four values written.
\<close>

definition get_qual_vector :: "real \<Rightarrow> real \<Rightarrow> real \<Rightarrow> int \<times> logval list" where
  "get_qual_vector qual cap_bq min_bq =
     (let bq = max2 (min2 cap_bq qual) min_bq;
          p = (1 / 10) powr (bq / 10)
      in (0, [c_log (1 - p), c_log (0.75 - 2 / 3 * p), c_log (0.5 - 1 / 3 * p), c_log p]))"

subsection \<open>\<^verbatim>\<open>qual_matrix_to_geno\<close>\<close>

text \<open>
  The first loop collects the bases that are neither ref nor alt into the local buffer
  \<^verbatim>\<open>int8_t other_idx[4]\<close>; the list is the written part of the buffer and \<open>noth\<close> its
  length. The write \<^verbatim>\<open>other_idx[noth++] = i\<close> with \<open>noth = 4\<close> is outside the buffer.
\<close>

function other_idx_loop :: "int \<Rightarrow> int \<Rightarrow> int \<Rightarrow> int list \<Rightarrow> fault + int list" where
  "other_idx_loop ref_idx alt_idx i other_idx =
     (if i < 5 then
        (if i \<noteq> ref_idx \<and> i \<noteq> alt_idx then
           (if 4 \<le> length other_idx then Inl BufferOverflow
            else other_idx_loop ref_idx alt_idx (i + 1) (other_idx @ [i]))
         else other_idx_loop ref_idx alt_idx (i + 1) other_idx)
      else Inr other_idx)"
  by pat_completeness auto
termination
  by (relation "measure (\<lambda>(r, a, i, os). nat (5 - i))") auto

declare other_idx_loop.simps [simp del]

text \<open>
  The second loop: \<open>oth_qual\<close> accumulates \<open>qm[other_idx[i]][3]\<close> and \<open>tmp_qual\<close> the read
  counts \<open>bc[other_idx[i]]\<close> (converted to double), in the order of \<open>other_idx\<close>.
\<close>

fun oth_qual_loop :: "real list list \<Rightarrow> size_t list \<Rightarrow> int list \<Rightarrow> real \<times> real \<Rightarrow> real \<times> real" where
  "oth_qual_loop qm bc [] acc = acc"
| "oth_qual_loop qm bc (j # js) (oth_qual, tmp_qual) =
     oth_qual_loop qm bc js (oth_qual + qm ! nat j ! 3, tmp_qual + real (unat (bc ! nat j)))"

text \<open>
  \<^verbatim>\<open>qual_matrix_to_geno(qm, bc, ref_idx, alt_idx, db, gl, n)\<close>. The result is the return
  code, the array \<open>gl\<close> after the call and the value stored in \<open>*n\<close>. \<open>bc\<close> has five
  entries and \<open>qm\<close> five rows, so \<open>bc[ref_idx]\<close> and \<open>qm[ref_idx]\<close> lie inside them only
  for an index in \<open>0..4\<close>.
\<close>

definition qual_matrix_to_geno ::
  "real list list \<Rightarrow> size_t list \<Rightarrow> int \<Rightarrow> int \<Rightarrow> int \<Rightarrow> real list \<Rightarrow> fault + (int \<times> real list \<times> int)" where
  "qual_matrix_to_geno qm bc ref_idx alt_idx db gl =
     (case other_idx_loop ref_idx alt_idx 0 [] of
        Inl e \<Rightarrow> Inl e
      | Inr other_idx \<Rightarrow>
          if \<not> (0 \<le> ref_idx \<and> ref_idx < 5 \<and> 0 \<le> alt_idx \<and> alt_idx < 5) then Inl OutOfBounds
          else
            let ref_read = real (unat (bc ! nat ref_idx));
                alt_read = real (unat (bc ! nat alt_idx));
                ref_qual = qm ! nat ref_idx;
                alt_qual = qm ! nat alt_idx;
                (oth_qual0, tmp_qual) = oth_qual_loop qm bc other_idx (0, 0);
                oth_qual = oth_qual0 + ln (2 / 3) * tmp_qual;
                gl1 = gl[0 := oth_qual + ref_qual ! 0 + alt_qual ! 3 + ln (1 / 3) * alt_read,
                         1 := oth_qual + ref_qual ! 2 + alt_qual ! 2,
                         2 := oth_qual + ref_qual ! 3 + alt_qual ! 0 + ln (1 / 3) * ref_read]
            in if db \<noteq> 0 then
                 Inr (0, gl1[3 := oth_qual + ref_qual ! 1 + ln (1 / 4) * alt_read,
                             4 := oth_qual + alt_qual ! 1 + ln (1 / 4) * ref_read], 5)
               else Inr (0, gl1, 3))"

subsection \<open>\<^verbatim>\<open>csp_infer_allele\<close>\<close>

text \<open>The loop state is \<open>(m1, m2, k1, k2)\<close>: the two largest counts seen and their indices.\<close>

type_synonym infer_state = "size_t \<times> size_t \<times> int \<times> int"

fun infer_step :: "size_t list \<Rightarrow> infer_state \<Rightarrow> nat \<Rightarrow> infer_state" where
  "infer_step bc (m1, m2, k1, k2) i =
     (if bc ! i > m1 then (bc ! i, m1, int i, k1)
      else if bc ! i > m2 then (m1, bc ! i, k1, int i)
      else (m1, m2, k1, k2))"

function infer_loop :: "size_t list \<Rightarrow> nat \<Rightarrow> infer_state \<Rightarrow> infer_state" where
  "infer_loop bc i st = (if i < 5 then infer_loop bc (Suc i) (infer_step bc st i) else st)"
  by pat_completeness auto
termination
  by (relation "measure (\<lambda>(bc, i, st). 5 - i)") auto

declare infer_loop.simps [simp del]

text \<open>\<^verbatim>\<open>csp_infer_allele(bc, ref_idx, alt_idx)\<close>; the result is \<open>(*ref_idx, *alt_idx)\<close>.\<close>

definition csp_infer_allele :: "size_t list \<Rightarrow> int \<times> int" where
  "csp_infer_allele bc =
     (let init = (if bc ! 0 < bc ! 1 then (bc ! 1, bc ! 0, 1, 0)
                  else (bc ! 0, bc ! 1, 0, 1));
          (m1, m2, k1, k2) = infer_loop bc 2 init
      in (k1, k2))"

section \<open>Containers\<close>

subsection \<open>\<^verbatim>\<open>kvec_t\<close>\<close>

text \<open>
  Modelled from the spec: \<^verbatim>\<open>kvec.h\<close> is not among the sources. A \<^verbatim>\<open>kvec_t\<close> is
  \<open>{n, m, a}\<close> (\<^verbatim>\<open>snp.h\<close>: \<open>n\<close> "the next pos of the unused element", \<open>m\<close> the "size of the
  whole array"): \<open>kv_a\<close> holds the \<open>n\<close> live elements and \<open>kv_m\<close> is the allocated
  capacity. Setting \<open>n = 0\<close>, as the reset macros of \<^verbatim>\<open>mplp.h\<close> do, drops the elements
  and "keeps allocated backing capacity" (section 4.2). A push into a full vector
  doubles the capacity (2 for an empty one).
\<close>

record 'a kvec =
  kv_m :: nat
  kv_a :: "'a list"

definition kv_init :: "'a kvec" where
  "kv_init = \<lparr>kv_m = 0, kv_a = []\<rparr>"

definition kv_size :: "'a kvec \<Rightarrow> nat" where
  "kv_size v = length (kv_a v)"

definition kv_push :: "'a kvec \<Rightarrow> 'a \<Rightarrow> 'a kvec" where
  "kv_push v x =
     (let m = (if kv_size v = kv_m v then (if kv_m v \<noteq> 0 then 2 * kv_m v else 2) else kv_m v)
      in \<lparr>kv_m = m, kv_a = kv_a v @ [x]\<rparr>)"

definition kv_resize :: "'a kvec \<Rightarrow> nat \<Rightarrow> 'a kvec" where
  "kv_resize v s = v\<lparr>kv_m := s\<rparr>"

definition kv_reset :: "'a kvec \<Rightarrow> 'a kvec" where
  "kv_reset v = v\<lparr>kv_a := []\<rparr>"

subsection \<open>\<^verbatim>\<open>khash\<close> with string keys\<close>

text \<open>
  \<^verbatim>\<open>khash.h\<close> belongs to htslib, outside this repository. A table is represented by its
  bucket array: a bucket is empty or holds a key and a value, an iterator is a bucket
  index, and \<open>kh_end\<close> is the number of buckets. No key occupies two buckets. \<open>kh_put\<close>
  returns the bucket of the key and a code: 0 when the key was present, 1 when it was
  inserted, -1 when the table had to grow and the allocation failed. A new key takes the
  first empty bucket; the table grows by one bucket when none is empty.
\<close>

type_synonym 'v khash = "(string \<times> 'v) option list"

definition kh_init :: "'v khash" where
  "kh_init = []"

definition kh_end :: "'v khash \<Rightarrow> nat" where
  "kh_end h = length h"

definition kh_exist :: "'v khash \<Rightarrow> nat \<Rightarrow> bool" where
  "kh_exist h k = (k < length h \<and> h ! k \<noteq> None)"

fun bucket_of :: "'v khash \<Rightarrow> string \<Rightarrow> nat \<Rightarrow> nat option" where
  "bucket_of [] key k = None"
| "bucket_of (b # bs) key k =
     (case b of
        Some (key', v) \<Rightarrow> if key' = key then Some k else bucket_of bs key (Suc k)
      | None \<Rightarrow> bucket_of bs key (Suc k))"

fun empty_bucket :: "'v khash \<Rightarrow> nat \<Rightarrow> nat option" where
  "empty_bucket [] k = None"
| "empty_bucket (b # bs) k = (case b of None \<Rightarrow> Some k | Some e \<Rightarrow> empty_bucket bs (Suc k))"

definition kh_get :: "'v khash \<Rightarrow> string \<Rightarrow> nat" where
  "kh_get h key = (case bucket_of h key 0 of Some k \<Rightarrow> k | None \<Rightarrow> kh_end h)"

text \<open>
  \<open>kh_put alloc_ok h key v0\<close>: \<open>alloc_ok\<close> tells whether an allocation made during the
  call succeeds, and \<open>v0\<close> is the content of the new bucket's value field before the
  caller assigns it.
\<close>

definition kh_put :: "bool \<Rightarrow> 'v khash \<Rightarrow> string \<Rightarrow> 'v \<Rightarrow> 'v khash \<times> nat \<times> int" where
  "kh_put alloc_ok h key v0 =
     (case bucket_of h key 0 of
        Some k \<Rightarrow> (h, k, 0)
      | None \<Rightarrow>
          (case empty_bucket h 0 of
             Some k \<Rightarrow> (h[k := Some (key, v0)], k, 1)
           | None \<Rightarrow>
               if alloc_ok then (h @ [Some (key, v0)], length h, 1)
               else (h, kh_end h, - 1)))"

definition kh_key :: "'v khash \<Rightarrow> nat \<Rightarrow> fault + string" where
  "kh_key h k = (if kh_exist h k then Inr (fst (the (h ! k))) else Inl OutOfBounds)"

definition kh_val :: "'v khash \<Rightarrow> nat \<Rightarrow> fault + 'v" where
  "kh_val h k = (if kh_exist h k then Inr (snd (the (h ! k))) else Inl OutOfBounds)"

definition kh_set_val :: "'v khash \<Rightarrow> nat \<Rightarrow> 'v \<Rightarrow> 'v khash" where
  "kh_set_val h k v =
     (if k < length h then (case h ! k of Some (key, v') \<Rightarrow> h[k := Some (key, v)] | None \<Rightarrow> h)
      else h)"

definition kh_clear :: "'v khash \<Rightarrow> 'v khash" where
  "kh_clear h = map (\<lambda>b. None) h"

definition kh_keys :: "'v khash \<Rightarrow> string list" where
  "kh_keys h = map fst (List.map_filter id h)"

section \<open>Per-sample pileup state\<close>

text \<open>
  \<^verbatim>\<open>csp_umi_unit_t\<close> and the list of the units of one UMI group. The list holds pointers
  into the unit pool; a pointer into a pool is the index of the pool element.
\<close>

record csp_umi_unit =
  base :: int
  qual :: int

type_synonym csp_list_uu = "nat kvec"

text \<open>\<^verbatim>\<open>csp_map_ug_t\<close>: UMI name to a list of the list pool.\<close>

type_synonym csp_map_ug = "nat khash"

text \<open>\<^verbatim>\<open>csp_plp_t\<close>. \<open>hug\<close> is a pointer and may be \<^verbatim>\<open>NULL\<close>.\<close>

record csp_plp =
  bc :: "size_t list"
  tc :: size_t
  ad :: size_t
  dp :: size_t
  oth :: size_t
  qu :: "int kvec list"
  qmat :: "real list list"
  gl :: "c_double list"
  ngl :: int
  hug :: "csp_map_ug option"

text \<open>
  \<^verbatim>\<open>csp_plp_reset(p)\<close>, a no-op on \<^verbatim>\<open>NULL\<close>. The two \<^verbatim>\<open>memset\<close> calls zero the five counts
  and the 5-by-4 matrix; \<open>gl\<close> is not touched.
\<close>

fun csp_plp_reset :: "csp_plp option \<Rightarrow> csp_plp option" where
  "csp_plp_reset None = None"
| "csp_plp_reset (Some p) =
     Some (p\<lparr>bc := replicate 5 0, tc := 0, ad := 0, dp := 0, oth := 0,
             qu := map kv_reset (qu p),
             qmat := replicate 5 (replicate 4 0),
             ngl := 0,
             hug := map_option kh_clear (hug p)\<rparr>)"

text \<open>
  \<^verbatim>\<open>csp_plp_str_vcf(p, s)\<close>: the result is the return code and the buffer \<open>s\<close> after the
  call. The local array \<^verbatim>\<open>double gl[5]\<close> receives \<open>ngl\<close> entries, each the product of a
  likelihood and the negative factor \<open>tmp\<close>. The arg-max compares the values of the
  likelihoods (\<open>-0.0\<close> and \<open>+0.0\<close> compare equal).
\<close>

definition csp_plp_str_vcf :: "csp_plp \<Rightarrow> string \<Rightarrow> fault + (int \<times> string)" where
  "csp_plp_str_vcf p s =
     (if tc p \<le> 0 then Inr (0, s @ ''.:.:.:.:.:.'')
      else
        let tmp = Dbl (- 10 / ln 10);
            gt = [''0/0'', ''1/0'', ''1/1''];
            m = get_idx_of_max (map dval (gl p)) 3;
            s1 = s @ gt ! m;
            s2 = s1 @ '':'' @ fmt_ld (ad p) @ '':'' @ fmt_ld (dp p) @ '':'' @ fmt_ld (oth p) @ '':''
        in if 5 < ngl p then Inl BufferOverflow
           else
             let gl' = map (\<lambda>x. c_times x tmp) (take (nat (ngl p)) (gl p));
                 (r1, s3) = join_arr_to_str fmt_f0 gl' (ngl p) CHR '','' s2
             in if r1 < ngl p then Inr (- 1, s3)
                else
                  let s4 = s3 @ '':'';
                      (r2, s5) = join_arr_to_str fmt_ld (bc p) 5 CHR '','' s4
                  in if r2 < 5 then Inr (- 1, s5) else Inr (0, s5))"

section \<open>Object pool\<close>

text \<open>
  Modelled from the spec: the macro \<^verbatim>\<open>SZ_POOL_INIT\<close> of \<^verbatim>\<open>jmemory.h\<close> is not among the
  sources. Section 4.1: \<open>reset\<close> "marks all elements available again without
  deallocating backing storage, and, for element kinds holding dynamic sub-resources,
  invokes a per-kind clear callback that releases the sub-resource exactly once per
  reuse cycle". \<open>pool_a\<close> is the backing storage and \<open>pool_n\<close> the number of elements
  handed out since the last reset; the callback runs on those.
\<close>

record 'a sz_pool =
  pool_a :: "'a list"
  pool_n :: nat

definition sz_pool_reset :: "('a \<Rightarrow> 'a) \<Rightarrow> 'a sz_pool \<Rightarrow> 'a sz_pool" where
  "sz_pool_reset reset_f p =
     \<lparr>pool_a = map reset_f (take (pool_n p) (pool_a p)) @ drop (pool_n p) (pool_a p),
      pool_n = 0\<rparr>"

text \<open>
  The reset callbacks that \<^verbatim>\<open>mplp.h\<close> passes to the three pools: \<^verbatim>\<open>csp_umi_unit_reset\<close>
  is empty, \<^verbatim>\<open>csp_list_uu_reset\<close> sets \<open>n = 0\<close>, and \<^verbatim>\<open>csp_pool_str_reset\<close> frees the
  string (an element of the string pool is \<open>None\<close> once its string is freed).
\<close>

definition csp_umi_unit_reset :: "csp_umi_unit \<Rightarrow> csp_umi_unit" where
  "csp_umi_unit_reset u = u"

definition csp_list_uu_reset :: "csp_list_uu \<Rightarrow> csp_list_uu" where
  "csp_list_uu_reset v = kv_reset v"

definition csp_pool_str_reset :: "string option \<Rightarrow> string option" where
  "csp_pool_str_reset s = None"

type_synonym csp_pool_uu = "csp_umi_unit sz_pool"
type_synonym csp_pool_ul = "csp_list_uu sz_pool"
type_synonym csp_pool_ps = "string option sz_pool"

definition csp_pool_uu_reset :: "csp_pool_uu \<Rightarrow> csp_pool_uu" where
  "csp_pool_uu_reset = sz_pool_reset csp_umi_unit_reset"

definition csp_pool_ul_reset :: "csp_pool_ul \<Rightarrow> csp_pool_ul" where
  "csp_pool_ul_reset = sz_pool_reset csp_list_uu_reset"

definition csp_pool_ps_reset :: "csp_pool_ps \<Rightarrow> csp_pool_ps" where
  "csp_pool_ps_reset = sz_pool_reset csp_pool_str_reset"

section \<open>Multi-sample aggregator\<close>

text \<open>\<^verbatim>\<open>csp_map_sg_t\<close>: sample-group name to a \<^verbatim>\<open>csp_plp_t*\<close>, which may be \<^verbatim>\<open>NULL\<close>.\<close>

type_synonym csp_map_sg = "csp_plp option khash"

text \<open>\<^verbatim>\<open>csp_map_sg_reset_val\<close>: \<^verbatim>\<open>csp_plp_reset\<close> on the value of every occupied bucket.\<close>

definition csp_map_sg_reset_val :: "csp_map_sg \<Rightarrow> csp_map_sg" where
  "csp_map_sg_reset_val h = map (map_option (\<lambda>(key, v). (key, csp_plp_reset v))) h"

text \<open>\<^verbatim>\<open>csp_mplp_t\<close>. \<open>hsg\<close>, \<open>hsg_iter\<close> and the three pools are pointers.\<close>

record csp_mplp =
  ref_idx :: int
  alt_idx :: int
  inf_rid :: int
  inf_aid :: int
  bc :: "size_t list"
  tc :: size_t
  ad :: size_t
  dp :: size_t
  oth :: size_t
  nr_ad :: size_t
  nr_dp :: size_t
  nr_oth :: size_t
  hsg :: "csp_map_sg option"
  hsg_iter :: "nat list option"
  nsg :: int
  pu :: "csp_pool_uu option"
  pl :: "csp_pool_ul option"
  su :: "csp_pool_ps option"
  qvec :: "real list"

text \<open>\<^verbatim>\<open>csp_mplp_init\<close>: \<^verbatim>\<open>calloc\<close> gives a zeroed struct.\<close>

definition csp_mplp_init :: csp_mplp where
  "csp_mplp_init =
     \<lparr>ref_idx = 0, alt_idx = 0, inf_rid = 0, inf_aid = 0,
      bc = replicate 5 0, tc = 0, ad = 0, dp = 0, oth = 0,
      nr_ad = 0, nr_dp = 0, nr_oth = 0,
      hsg = None, hsg_iter = None, nsg = 0,
      pu = None, pl = None, su = None, qvec = replicate 4 0\<rparr>"

text \<open>\<^verbatim>\<open>csp_mplp_reset(p)\<close>, a no-op on \<^verbatim>\<open>NULL\<close>.\<close>

fun csp_mplp_reset :: "csp_mplp option \<Rightarrow> csp_mplp option" where
  "csp_mplp_reset None = None"
| "csp_mplp_reset (Some p) =
     Some (p\<lparr>bc := replicate 5 0, tc := 0, ad := 0, dp := 0, oth := 0,
             nr_ad := 0, nr_dp := 0, nr_oth := 0,
             hsg := map_option csp_map_sg_reset_val (hsg p),
             pu := map_option csp_pool_uu_reset (pu p),
             pl := map_option csp_pool_ul_reset (pl p),
             su := map_option csp_pool_ps_reset (su p),
             qvec := replicate 4 0\<rparr>)"

subsection \<open>\<^verbatim>\<open>csp_mplp_set_sg\<close>\<close>

text \<open>
  The first loop of \<^verbatim>\<open>csp_mplp_set_sg\<close> puts every name into the table and sets its value
  to \<^verbatim>\<open>NULL\<close>. It stops at a \<^verbatim>\<open>NULL\<close> name (return -1), and at a name for which \<open>kh_put\<close>
  reports \<open>r <= 0\<close> (repeated name or failed allocation: \<^verbatim>\<open>csp_mplp_destroy(p)\<close>, return
  -1).
\<close>

datatype sg_put = Stored csp_map_sg | Rejected | NullName csp_map_sg

fun sg_put_loop :: "bool \<Rightarrow> csp_map_sg \<Rightarrow> string option list \<Rightarrow> sg_put" where
  "sg_put_loop alloc_ok h [] = Stored h"
| "sg_put_loop alloc_ok h (None # ss) = NullName h"
| "sg_put_loop alloc_ok h (Some name # ss) =
     (case kh_put alloc_ok h name None of
        (h', k, r) \<Rightarrow>
          if r \<le> 0 then Rejected
          else sg_put_loop alloc_ok (kh_set_val h' k None) ss)"

text \<open>
  The second loop looks every name up again and stores its iterator in \<open>hsg_iter[i]\<close>.
  \<open>hsg_iter\<close> is the array as allocated, so a write at an index beyond its length is
  outside the allocation. The result is \<open>None\<close> when a lookup fails (return -1).
\<close>

fun sg_iter_loop :: "csp_map_sg \<Rightarrow> string option list \<Rightarrow> nat \<Rightarrow> nat list \<Rightarrow> fault + (nat list) option" where
  "sg_iter_loop h [] i iters = Inr (Some iters)"
| "sg_iter_loop h (None # ss) i iters = Inl NullDeref"
| "sg_iter_loop h (Some name # ss) i iters =
     (let k = kh_get h name
      in if k = kh_end h then Inr None
         else if length iters \<le> i then Inl OutOfBounds
         else sg_iter_loop h ss (Suc i) (iters[i := k]))"

text \<open>
  \<^verbatim>\<open>csp_mplp_set_sg(p, s, n)\<close>. The array \<open>s\<close> of \<open>n\<close> names is a list of length \<open>n\<close>; a
  name may be \<^verbatim>\<open>NULL\<close>. \<open>alloc_ok\<close> tells whether the allocations of this call succeed.
  The result is the return code and the aggregator after the call, which is \<open>None\<close>
  once \<^verbatim>\<open>csp_mplp_destroy\<close> has freed it. The content of the freshly allocated
  \<open>hsg_iter\<close> is indeterminate in C and zero here.
\<close>

definition csp_mplp_set_sg ::
  "bool \<Rightarrow> csp_mplp option \<Rightarrow> string option list option \<Rightarrow> fault + (int \<times> csp_mplp option)" where
  "csp_mplp_set_sg alloc_ok p s =
     (case p of
        None \<Rightarrow> Inr (- 1, None)
      | Some p0 \<Rightarrow>
          (case s of
             None \<Rightarrow> Inr (- 1, Some p0)
           | Some names \<Rightarrow>
               if names = [] then Inr (- 1, Some p0)
               else if hsg p0 = None \<and> \<not> alloc_ok then Inr (- 1, Some p0)
               else
                 let h0 = (case hsg p0 of None \<Rightarrow> kh_init | Some h \<Rightarrow> h);
                     p1 = p0\<lparr>hsg := Some h0\<rparr>
                 in if hsg_iter p1 = None \<and> \<not> alloc_ok then Inr (- 1, Some p1)
                    else
                      let it0 = (case hsg_iter p1 of
                                   None \<Rightarrow> replicate (length names) 0
                                 | Some it \<Rightarrow> it);
                          p2 = p1\<lparr>hsg_iter := Some it0\<rparr>
                      in (case sg_put_loop alloc_ok h0 names of
                            Rejected \<Rightarrow> Inr (- 1, None)
                          | NullName h1 \<Rightarrow> Inr (- 1, Some (p2\<lparr>hsg := Some h1\<rparr>))
                          | Stored h1 \<Rightarrow>
                              (case sg_iter_loop h1 names 0 it0 of
                                 Inl e \<Rightarrow> Inl e
                               | Inr None \<Rightarrow> Inr (- 1, Some (p2\<lparr>hsg := Some h1\<rparr>))
                               | Inr (Some it1) \<Rightarrow>
                                   Inr (0, Some (p2\<lparr>hsg := Some h1, hsg_iter := Some it1,
                                                    nsg := int (length names)\<rparr>))))))"

subsection \<open>Output formatters of the aggregator\<close>

text \<open>
  \<^verbatim>\<open>csp_map_sg_val(mplp->hsg, mplp->hsg_iter[j])\<close> followed by the dereference of the
  \<^verbatim>\<open>csp_plp_t*\<close> found there. \<open>hsg_iter\<close> has as many entries as were allocated for
  it; an index outside is a read outside the array.
\<close>

definition sg_plp_at :: "csp_mplp \<Rightarrow> int \<Rightarrow> fault + csp_plp" where
  "sg_plp_at mplp j =
     (case hsg mplp of
        None \<Rightarrow> Inl NullDeref
      | Some h \<Rightarrow>
          (case hsg_iter mplp of
             None \<Rightarrow> Inl NullDeref
           | Some iters \<Rightarrow>
               if 0 \<le> j \<and> nat j < length iters then
                 (case kh_val h (iters ! nat j) of
                    Inl e \<Rightarrow> Inl e
                  | Inr None \<Rightarrow> Inl NullDeref
                  | Inr (Some plp) \<Rightarrow> Inr plp)
               else Inl OutOfBounds))"

definition tab :: char where
  "tab = CHR 0x09"

definition newline :: char where
  "newline = CHR 0x0A"

text \<open>The lines \<^verbatim>\<open>"%ld\t%d\t%ld\n"\<close> and \<^verbatim>\<open>"%d\t%ld\n"\<close>.\<close>

definition mtx_line :: "size_t \<Rightarrow> int \<Rightarrow> size_t \<Rightarrow> string" where
  "mtx_line idx i v = fmt_ld idx @ tab # fmt_d i @ tab # fmt_ld v @ [newline]"

definition mtx_line_tmp :: "int \<Rightarrow> size_t \<Rightarrow> string" where
  "mtx_line_tmp i v = fmt_d i @ tab # fmt_ld v @ [newline]"




text \<open>
  \<^verbatim>\<open>csp_mplp_str_mtx(mplp, ks_ad, ks_dp, ks_oth, idx)\<close>. The loop runs \<open>i\<close> from 1 to
  \<open>nsg\<close> and reads \<^verbatim>\<open>mplp->hsg_iter[i]\<close>.
\<close>

function str_mtx_loop ::
  "csp_mplp \<Rightarrow> size_t \<Rightarrow> int \<Rightarrow> string \<times> string \<times> string \<Rightarrow> fault + (string \<times> string \<times> string)" where
  "str_mtx_loop mplp idx i (ks_ad, ks_dp, ks_oth) =
     (if i \<le> nsg mplp then
        (case sg_plp_at mplp i of
           Inl e \<Rightarrow> Inl e
         | Inr plp \<Rightarrow>
             str_mtx_loop mplp idx (i + 1)
               (if csp_plp.ad plp \<noteq> 0 then ks_ad @ mtx_line idx i (csp_plp.ad plp) else ks_ad,
                if csp_plp.dp plp \<noteq> 0 then ks_dp @ mtx_line idx i (csp_plp.dp plp) else ks_dp,
                if csp_plp.oth plp \<noteq> 0 then ks_oth @ mtx_line idx i (csp_plp.oth plp) else ks_oth))
      else Inr (ks_ad, ks_dp, ks_oth))"
  by pat_completeness auto
termination
  by (relation "measure (\<lambda>(mplp, idx, i, ks). nat (nsg mplp + 1 - i))") auto

declare str_mtx_loop.simps [simp del]

definition csp_mplp_str_mtx ::
  "csp_mplp \<Rightarrow> string \<Rightarrow> string \<Rightarrow> string \<Rightarrow> size_t \<Rightarrow> fault + (int \<times> string \<times> string \<times> string)" where
  "csp_mplp_str_mtx mplp ks_ad ks_dp ks_oth idx =
     (case str_mtx_loop mplp idx 1 (ks_ad, ks_dp, ks_oth) of
        Inl e \<Rightarrow> Inl e
      | Inr ks \<Rightarrow> Inr (0, ks))"

text \<open>
  \<^verbatim>\<open>csp_mplp_str_mtx_tmp(mplp, ks_ad, ks_dp, ks_oth)\<close>: the same loop, reading
  \<^verbatim>\<open>mplp->hsg_iter[i]\<close>, with lines that leave the site index out; a newline closes each
  of the three blocks.
\<close>

function str_mtx_tmp_loop ::
  "csp_mplp \<Rightarrow> int \<Rightarrow> string \<times> string \<times> string \<Rightarrow> fault + (string \<times> string \<times> string)" where
  "str_mtx_tmp_loop mplp i (ks_ad, ks_dp, ks_oth) =
     (if i \<le> nsg mplp then
        (case sg_plp_at mplp i of
           Inl e \<Rightarrow> Inl e
         | Inr plp \<Rightarrow>
             str_mtx_tmp_loop mplp (i + 1)
               (if csp_plp.ad plp \<noteq> 0 then ks_ad @ mtx_line_tmp i (csp_plp.ad plp) else ks_ad,
                if csp_plp.dp plp \<noteq> 0 then ks_dp @ mtx_line_tmp i (csp_plp.dp plp) else ks_dp,
                if csp_plp.oth plp \<noteq> 0 then ks_oth @ mtx_line_tmp i (csp_plp.oth plp) else ks_oth))
      else Inr (ks_ad, ks_dp, ks_oth))"
  by pat_completeness auto
termination
  by (relation "measure (\<lambda>(mplp, i, ks). nat (nsg mplp + 1 - i))") auto

declare str_mtx_tmp_loop.simps [simp del]

definition csp_mplp_str_mtx_tmp ::
  "csp_mplp \<Rightarrow> string \<Rightarrow> string \<Rightarrow> string \<Rightarrow> fault + (int \<times> string \<times> string \<times> string)" where
  "csp_mplp_str_mtx_tmp mplp ks_ad ks_dp ks_oth =
     (case str_mtx_tmp_loop mplp 1 (ks_ad, ks_dp, ks_oth) of
        Inl e \<Rightarrow> Inl e
      | Inr (a, d, t) \<Rightarrow> Inr (0, a @ [newline], d @ [newline], t @ [newline]))"

text \<open>
  \<^verbatim>\<open>csp_mplp_to_mtx(mplp, fs_ad, fs_dp, fs_oth, idx)\<close> writes the same records to three
  \<^verbatim>\<open>jfile_t\<close> streams. This function reads \<^verbatim>\<open>mplp->hsg_iter[i - 1]\<close>.

  Modelled from the spec: \<^verbatim>\<open>jfile.h\<close> is not among the sources. A stream is its \<open>is_tmp\<close>
  flag (the "temporary" layout of section 4.5) and the text written so far;
  \<^verbatim>\<open>jf_printf\<close> and \<^verbatim>\<open>jf_putc\<close> append to it.
\<close>

record jfile =
  is_tmp :: bool
  written :: string

definition jf_puts :: "string \<Rightarrow> jfile \<Rightarrow> jfile" where
  "jf_puts t f = f\<lparr>written := written f @ t\<rparr>"

definition to_mtx_put :: "jfile \<Rightarrow> size_t \<Rightarrow> int \<Rightarrow> size_t \<Rightarrow> jfile" where
  "to_mtx_put f idx i v =
     (if v \<noteq> 0 then (if is_tmp f then jf_puts (mtx_line_tmp i v) f else jf_puts (mtx_line idx i v) f)
      else f)"

function to_mtx_loop ::
  "csp_mplp \<Rightarrow> size_t \<Rightarrow> int \<Rightarrow> jfile \<times> jfile \<times> jfile \<Rightarrow> fault + (jfile \<times> jfile \<times> jfile)" where
  "to_mtx_loop mplp idx i (fs_ad, fs_dp, fs_oth) =
     (if i \<le> nsg mplp then
        (case sg_plp_at mplp (i - 1) of
           Inl e \<Rightarrow> Inl e
         | Inr plp \<Rightarrow>
             to_mtx_loop mplp idx (i + 1)
               (to_mtx_put fs_ad idx i (csp_plp.ad plp),
                to_mtx_put fs_dp idx i (csp_plp.dp plp),
                to_mtx_put fs_oth idx i (csp_plp.oth plp)))
      else Inr (fs_ad, fs_dp, fs_oth))"
  by pat_completeness auto
termination
  by (relation "measure (\<lambda>(mplp, idx, i, fs). nat (nsg mplp + 1 - i))") auto

declare to_mtx_loop.simps [simp del]

definition to_mtx_close :: "jfile \<Rightarrow> jfile" where
  "to_mtx_close f = (if is_tmp f then jf_puts [newline] f else f)"

definition csp_mplp_to_mtx ::
  "csp_mplp \<Rightarrow> jfile \<Rightarrow> jfile \<Rightarrow> jfile \<Rightarrow> size_t \<Rightarrow> fault + (int \<times> jfile \<times> jfile \<times> jfile)" where
  "csp_mplp_to_mtx mplp fs_ad fs_dp fs_oth idx =
     (case to_mtx_loop mplp idx 1 (fs_ad, fs_dp, fs_oth) of
        Inl e \<Rightarrow> Inl e
      | Inr (a, d, t) \<Rightarrow> Inr (0, to_mtx_close a, to_mtx_close d, to_mtx_close t))"

section \<open>SNP list\<close>

text \<open>
  \<^verbatim>\<open>csp_snp_t\<close>: \<open>ref\<close> and \<open>alt\<close> are the allele letters, the zero byte when the input
  gives none. \<^verbatim>\<open>csp_snplist_t\<close> is a \<^verbatim>\<open>kvec_t\<close> of them.
\<close>

record csp_snp =
  chr :: string
  pos :: int
  ref :: char
  alt :: char

type_synonym csp_snplist = "csp_snp kvec"

text \<open>\<^verbatim>\<open>csp_snp_init\<close>: \<^verbatim>\<open>calloc\<close> gives a zeroed struct; \<open>chr\<close> is assigned right after.\<close>

definition csp_snp_init :: "string \<Rightarrow> csp_snp" where
  "csp_snp_init c = \<lparr>chr = c, pos = 0, ref = CHR 0x00, alt = CHR 0x00\<rparr>"

text \<open>
  What the loop of \<^verbatim>\<open>get_snplist_from_vcf\<close> reads of an htslib record: the name that
  \<^verbatim>\<open>bcf_hdr_id2name(hdr, rec->rid)\<close> returns (\<^verbatim>\<open>NULL\<close> when the id does not resolve),
  \<^verbatim>\<open>rec->pos\<close>, and the allele strings \<^verbatim>\<open>rec->d.allele\<close>, of which there are
  \<^verbatim>\<open>rec->n_allele\<close>.
\<close>

record bcf1 =
  rid_name :: "string option"
  bcf_pos :: int
  allele :: "string list"

definition n_allele :: "bcf1 \<Rightarrow> int" where
  "n_allele r = int (length (allele r))"

text \<open>
  Modelled from the spec: \<^verbatim>\<open>safe_strdup\<close> of \<^verbatim>\<open>jstring.h\<close> is not among the sources. A
  name that "cannot be resolved" (section 6) is \<^verbatim>\<open>NULL\<close> and stays \<^verbatim>\<open>NULL\<close>; any other name
  is copied.
\<close>

definition safe_strdup :: "string option \<Rightarrow> string option" where
  "safe_strdup s = s"

datatype skip_reason = NoChrName | RefLen | AltLen | NAllele

text \<open>
  The body of the loop for one record: the site to push, or the reason for which the
  record is skipped (\<^verbatim>\<open>csp_snp_destroy(ip); continue\<close>).
\<close>

definition snp_of_rec :: "bcf1 \<Rightarrow> skip_reason + csp_snp" where
  "snp_of_rec r =
     (case safe_strdup (rid_name r) of
        None \<Rightarrow> Inl NoChrName
      | Some c \<Rightarrow>
          let ip = (csp_snp_init c)\<lparr>pos := bcf_pos r\<rparr>
          in if 0 < n_allele r then
               (case (let l = length (allele r ! 0)
                      in if l = 1 then Inr (ip\<lparr>ref := allele r ! 0 ! 0\<rparr>)
                         else if 1 < l then Inl RefLen
                         else Inr ip) of
                  Inl why \<Rightarrow> Inl why
                | Inr ip1 \<Rightarrow>
                    if n_allele r = 2 then
                      (let l = length (allele r ! 1)
                       in if l = 1 then Inr (ip1\<lparr>alt := allele r ! 1 ! 0\<rparr>)
                          else if 1 < l then Inl AltLen
                          else Inr ip1)
                    else if 2 < n_allele r then Inl NAllele
                    else Inr ip1)
             else Inr ip)"

text \<open>
  The messages on \<^verbatim>\<open>stderr\<close>: an error, or the warning for the skipped record number
  \<open>m\<close> (printed only with \<open>print_skip\<close>).
\<close>

datatype message =
    CouldNotOpen
  | CouldNotReadHeader
  | CouldNotInitBcf
  | CouldNotInitSnp
  | Skipped nat skip_reason
  | ParseFailed

text \<open>
  The loop \<^verbatim>\<open>for (m = 1; (r = bcf_read1(fp, hdr, rec)) >= 0; m++)\<close> over the records that
  \<^verbatim>\<open>bcf_read1\<close> delivers. \<open>mem\<close> is the number of \<^verbatim>\<open>csp_snp_init\<close> calls that still
  succeed. The state is the list, the count \<open>n\<close> and the messages; the flag tells
  whether the loop consumed every record (\<open>False\<close>: \<^verbatim>\<open>goto fail\<close>).
\<close>

type_synonym snp_state = "csp_snplist \<times> size_t \<times> message list"

fun snp_loop :: "bool \<Rightarrow> nat \<Rightarrow> nat \<Rightarrow> bcf1 list \<Rightarrow> snp_state \<Rightarrow> bool \<times> snp_state" where
  "snp_loop print_skip mem m [] st = (True, st)"
| "snp_loop print_skip mem m (r # rs) (l, n, msgs) =
     (if mem = 0 then (False, (l, n, msgs @ [CouldNotInitSnp]))
      else
        (case snp_of_rec r of
           Inl why \<Rightarrow>
             snp_loop print_skip (mem - 1) (Suc m) rs
               (l, n, if print_skip then msgs @ [Skipped m why] else msgs)
         | Inr ip \<Rightarrow>
             snp_loop print_skip (mem - 1) (Suc m) rs (kv_push l ip, n + 1, msgs)))"

text \<open>
  The file as the htslib calls see it: whether the header can be read, whether
  \<^verbatim>\<open>bcf_init1\<close> succeeds, the records read before \<^verbatim>\<open>bcf_read1\<close> returns a negative code,
  and whether that code is -1 (end of file) or an error.
\<close>

datatype bcf_end = EndOfFile | ReadError

record vcf_file =
  hdr_ok :: bool
  rec_ok :: bool
  records :: "bcf1 list"
  ending :: bcf_end

text \<open>
  \<^verbatim>\<open>get_snplist_from_vcf(fn, pl, ret, print_skip)\<close>. \<open>fp\<close> is what \<^verbatim>\<open>hts_open(fn, "rb")\<close>
  returns and \<open>snps\<close> is the argument \<open>pl\<close>. The result is the returned count, \<open>*ret\<close>, the list after the call and the
  messages.
\<close>

definition get_snplist_from_vcf ::
  "string option \<Rightarrow> vcf_file option \<Rightarrow> nat \<Rightarrow> csp_snplist option \<Rightarrow> bool \<Rightarrow>
     size_t \<times> int \<times> csp_snplist option \<times> message list" where
  "get_snplist_from_vcf fn fp mem snps print_skip =
     (case fn of
        None \<Rightarrow> (0, - 1, snps, [])
      | Some name \<Rightarrow>
          (case snps of
             None \<Rightarrow> (0, - 1, None, [])
           | Some pl0 \<Rightarrow>
               (case fp of
                  None \<Rightarrow> (0, - 1, Some pl0, [CouldNotOpen])
                | Some f \<Rightarrow>
                    if \<not> hdr_ok f then (0, - 1, Some pl0, [CouldNotReadHeader])
                    else if \<not> rec_ok f then (0, - 1, Some pl0, [CouldNotInitBcf])
                    else
                      (case snp_loop print_skip mem 1 (records f) (pl0, 0, []) of
                         (False, (pl1, n, msgs)) \<Rightarrow> (n, - 1, Some pl1, msgs)
                       | (True, (pl1, n, msgs)) \<Rightarrow>
                           (case ending f of
                              EndOfFile \<Rightarrow> (n, 0, Some (kv_resize pl1 (kv_size pl1)), msgs)
                            | ReadError \<Rightarrow> (n, - 1, Some pl1, msgs @ [ParseFailed]))))))"

section \<open>Reference definitions for the properties\<close>

text \<open>
  The acceptance rule in the words of the specification: the chromosome name resolves,
  the ref and the alt string have at most one letter each, and there are at most two
  alleles. An allele that the record does not have counts as the empty string.
\<close>

definition ref_str :: "bcf1 \<Rightarrow> string" where
  "ref_str r = (case allele r of [] \<Rightarrow> [] | a # as \<Rightarrow> a)"

definition alt_str :: "bcf1 \<Rightarrow> string" where
  "alt_str r = (case allele r of a # b # bs \<Rightarrow> b | _ \<Rightarrow> [])"

definition letter_or_zero :: "string \<Rightarrow> char" where
  "letter_or_zero a = (case a of [] \<Rightarrow> CHR 0x00 | c # cs \<Rightarrow> c)"

definition accepted :: "bcf1 \<Rightarrow> bool" where
  "accepted r =
     (rid_name r \<noteq> None \<and> length (ref_str r) \<le> 1 \<and> length (alt_str r) \<le> 1 \<and>
      length (allele r) \<le> 2)"

definition site_of :: "bcf1 \<Rightarrow> csp_snp" where
  "site_of r =
     \<lparr>chr = the (rid_name r), pos = bcf_pos r,
      ref = letter_or_zero (ref_str r), alt = letter_or_zero (alt_str r)\<rparr>"

text \<open>
  The invariant of the loop of \<^verbatim>\<open>csp_infer_allele\<close> after the first \<open>n\<close> counts: \<open>k1\<close> is
  the first index of the largest count and \<open>k2\<close> the first index of the largest count
  among the others.
\<close>

fun top2 :: "size_t list \<Rightarrow> nat \<Rightarrow> infer_state \<Rightarrow> bool" where
  "top2 cnt n (m1, m2, k1, k2) =
     (0 \<le> k1 \<and> k1 < int n \<and> 0 \<le> k2 \<and> k2 < int n \<and> k1 \<noteq> k2 \<and>
      m1 = cnt ! nat k1 \<and> m2 = cnt ! nat k2 \<and>
      (\<forall>j<n. cnt ! j \<le> m1) \<and> (\<forall>j<nat k1. cnt ! j < m1) \<and>
      (\<forall>j<n. j \<noteq> nat k1 \<longrightarrow> cnt ! j \<le> m2) \<and>
      (\<forall>j<nat k2. j \<noteq> nat k1 \<longrightarrow> cnt ! j < m2))"

text \<open>
  The bases that are neither ref nor alt, in increasing order, and the contribution of
  these bases to every likelihood as section 4.3 writes it: the sum of their fourth
  matrix entries plus \<open>log(2/3)\<close> times the sum of their read counts.
\<close>

definition other_bases :: "int \<Rightarrow> int \<Rightarrow> int list" where
  "other_bases r a = filter (\<lambda>i. i \<noteq> r \<and> i \<noteq> a) [0, 1, 2, 3, 4]"

definition other_contrib :: "real list list \<Rightarrow> size_t list \<Rightarrow> int \<Rightarrow> int \<Rightarrow> real" where
  "other_contrib qm cnt r a =
     (\<Sum>i\<leftarrow>other_bases r a. qm ! nat i ! 3) +
     ln (2 / 3) * (\<Sum>i\<leftarrow>other_bases r a. real (unat (cnt ! nat i)))"

text \<open>A quality matrix for the examples.\<close>

definition qm1 :: "real list list" where
  "qm1 = [[- 1, - 2, - 3, - 4], [- 5, - 6, - 7, - 8], [- 1, - 2, - 3, - 4],
          [- 5, - 6, - 7, - 8], [- 1, - 1, - 1, - 1]]"

text \<open>The order \<open>rv[0] >= rv[1] >= rv[2] >= rv[3]\<close> of a quality vector.\<close>

definition nonincreasing4 :: "logval list \<Rightarrow> bool" where
  "nonincreasing4 rv =
     (logval_ge (rv ! 0) (rv ! 1) \<and> logval_ge (rv ! 1) (rv ! 2) \<and> logval_ge (rv ! 2) (rv ! 3))"

text \<open>
  Example states: a sample with eight A and two G reads, a sample without reads, and an
  aggregator holding the two.
\<close>

definition plp_a :: csp_plp where
  "plp_a = \<lparr>csp_plp.bc = [8, 0, 2, 0, 0], csp_plp.tc = 10, csp_plp.ad = 2, csp_plp.dp = 10, csp_plp.oth = 0,
            qu = [\<lparr>kv_m = 8, kv_a = [30, 30, 30, 30, 30, 30, 30, 30]\<rparr>, kv_init,
                  \<lparr>kv_m = 2, kv_a = [30, 30]\<rparr>, kv_init, kv_init],
            qmat = qm1, gl = [Dbl (- 3), Dbl (- 7), Dbl (- 20), Dbl 0, Dbl 0], ngl = 3,
            hug = Some [Some (''ACGT'', 0), None]\<rparr>"

definition plp_b :: csp_plp where
  "plp_b = \<lparr>csp_plp.bc = [0, 0, 0, 0, 0], csp_plp.tc = 0, csp_plp.ad = 0, csp_plp.dp = 0, csp_plp.oth = 0,
            qu = [kv_init, kv_init, kv_init, kv_init, kv_init],
            qmat = replicate 5 (replicate 4 0), gl = [Dbl (- 3), Dbl (- 7), Dbl (- 20), Dbl 0, Dbl 0], ngl = 0,
            hug = None\<rparr>"

definition mplp_ab :: csp_mplp where
  "mplp_ab = csp_mplp_init
     \<lparr>ref_idx := 0, alt_idx := 2, inf_rid := - 1, inf_aid := - 1,
      bc := [8, 0, 2, 0, 0], tc := 10, ad := 2, dp := 10, nr_ad := 1, nr_dp := 1,
      hsg := Some [Some (''s1'', Some plp_a), Some (''s2'', Some plp_b)],
      hsg_iter := Some [0, 1], nsg := 2,
      su := Some \<lparr>pool_a = [Some ''ACGT'', None], pool_n = 1\<rparr>,
      qvec := [- 1, - 2, - 3, - 4]\<rparr>"

text \<open>The keys of a table, bucket by bucket.\<close>

definition sg_layout :: "'v khash \<Rightarrow> string option list" where
  "sg_layout h = map (map_option fst) h"

text \<open>
  The table that holds the given names, each with the value \<^verbatim>\<open>NULL\<close>, in consecutive
  buckets; and the aggregator after one and after two names were set on a new one.
\<close>

definition fresh_table :: "string list \<Rightarrow> csp_map_sg" where
  "fresh_table names = map (\<lambda>n. Some (n, None)) names"

definition sg_once :: csp_mplp where
  "sg_once = csp_mplp_init\<lparr>hsg := Some [Some (''s1'', None)], hsg_iter := Some [0], nsg := 1\<rparr>"

definition sg_both :: csp_mplp where
  "sg_both = csp_mplp_init\<lparr>hsg := Some [Some (''s1'', None), Some (''s2'', None)],
                           hsg_iter := Some [0, 1], nsg := 2\<rparr>"

text \<open>A second sample with reads, and the aggregator of the first and this one.\<close>

definition plp_c :: csp_plp where
  "plp_c = plp_b\<lparr>csp_plp.bc := [0, 3, 0, 4, 0], csp_plp.tc := 7, csp_plp.ad := 4,
                  csp_plp.dp := 7, gl := [Dbl (- 9), Dbl (- 2), Dbl (- 5), Dbl 0, Dbl 0], ngl := 3\<rparr>"

definition mplp_ac :: csp_mplp where
  "mplp_ac = mplp_ab\<lparr>hsg := Some [Some (''s1'', Some plp_a), Some (''s2'', Some plp_c)]\<rparr>"

text \<open>
  Example records: an A/G site, a site whose alt has two letters, a site whose
  chromosome id does not resolve, a site without alt, and a site with three alleles;
  and a file that delivers the five.
\<close>

definition rec_ok_ag :: bcf1 where
  "rec_ok_ag = \<lparr>rid_name = Some ''chr1'', bcf_pos = 99, allele = [''A'', ''G'']\<rparr>"

definition rec_alt2 :: bcf1 where
  "rec_alt2 = \<lparr>rid_name = Some ''chr1'', bcf_pos = 199, allele = [''A'', ''GT'']\<rparr>"

definition rec_nochr :: bcf1 where
  "rec_nochr = \<lparr>rid_name = None, bcf_pos = 299, allele = [''C'', ''T'']\<rparr>"

definition rec_noalt :: bcf1 where
  "rec_noalt = \<lparr>rid_name = Some ''chr2'', bcf_pos = 399, allele = [''C'']\<rparr>"

definition rec_three :: bcf1 where
  "rec_three = \<lparr>rid_name = Some ''chr2'', bcf_pos = 499, allele = [''C'', ''T'', ''G'']\<rparr>"

definition vcf_five :: vcf_file where
  "vcf_five = \<lparr>hdr_ok = True, rec_ok = True,
               records = [rec_ok_ag, rec_alt2, rec_nochr, rec_noalt, rec_three],
               ending = EndOfFile\<rparr>"

text \<open>
  The records of one metric for the values of the sample groups, in order: one line for
  every sample index (counted from 1) whose value is not zero, with the site index in
  the final layout and without it in the temporary layout, which also closes the block
  with an empty line.
\<close>

definition mtx_lines :: "bool \<Rightarrow> size_t \<Rightarrow> nat \<Rightarrow> size_t list \<Rightarrow> string" where
  "mtx_lines tmp idx k vals =
     concat (map (\<lambda>(j, v). if v \<noteq> 0
                              then (if tmp then mtx_line_tmp (int j + 1) v
                                    else mtx_line idx (int j + 1) v)
                              else [])
                 (enumerate k vals))"

definition mtx_block :: "bool \<Rightarrow> size_t \<Rightarrow> size_t list \<Rightarrow> string" where
  "mtx_block tmp idx vals = mtx_lines tmp idx 0 vals @ (if tmp then [newline] else [])"

definition jf_append :: "jfile \<Rightarrow> string \<Rightarrow> jfile" where
  "jf_append f t = f\<lparr>written := written f @ t\<rparr>"

definition tmp_file :: jfile where
  "tmp_file = \<lparr>is_tmp = True, written = []\<rparr>"

text \<open>The aggregator \<open>mplp_ab\<close> with a unit pool and a list pool in use.\<close>

definition mplp_pools :: csp_mplp where
  "mplp_pools = mplp_ab
     \<lparr>pu := Some \<lparr>pool_a = [\<lparr>base = 1, qual = 30\<rparr>, \<lparr>base = 4, qual = 12\<rparr>], pool_n = 2\<rparr>,
      pl := Some \<lparr>pool_a = [\<lparr>kv_m = 4, kv_a = [0, 1]\<rparr>, \<lparr>kv_m = 2, kv_a = [7]\<rparr>], pool_n = 1\<rparr>\<rparr>"

section \<open>Properties\<close>

subsection \<open>Allele inference\<close>

lemma top2_step:
  assumes "top2 cnt i st"
  shows "top2 cnt (Suc i) (infer_step cnt st i)"
proof -
  obtain m1 m2 k1 k2 where st: "st = (m1, m2, k1, k2)" by (cases st) auto
  show ?thesis
    using assms unfolding st
    by (auto simp: less_Suc_eq nat_less_iff)
qed

lemma top2_loop:
  "top2 cnt i st \<Longrightarrow> i \<le> 5 \<Longrightarrow> top2 cnt 5 (infer_loop cnt i st)"
proof (induction cnt i st rule: infer_loop.induct)
  case (1 cnt i st)
  show ?case
  proof (cases "i < 5")
    case True
    then show ?thesis
      using 1 top2_step [of cnt i st] by (simp add: infer_loop.simps [of cnt i st])
  next
    case False
    with 1 show ?thesis by (simp add: infer_loop.simps [of cnt 5 st])
  qed
qed

lemma top2_init:
  "top2 cnt 2 (if cnt ! 0 < cnt ! 1 then (cnt ! 1, cnt ! 0, 1, 0) else (cnt ! 0, cnt ! 1, 0, 1))"
  by (auto simp: less_Suc_eq numeral_2_eq_2)

text \<open>
  C7. For every count vector, \<^verbatim>\<open>csp_infer_allele\<close> returns two distinct indices in
  \<open>0..4\<close>: \<open>ref_idx\<close> holds a largest count and every earlier count is strictly
  smaller; \<open>alt_idx\<close> holds a largest count among the other four and every earlier one
  of them is strictly smaller. On \<open>[10, 10, 5, 0, 0]\<close> the result is \<open>(0, 1)\<close>.
\<close>

theorem csp_infer_allele_two_largest:
  "(case csp_infer_allele cnt of
      (r, a) \<Rightarrow>
        0 \<le> r \<and> r < 5 \<and> 0 \<le> a \<and> a < 5 \<and> r \<noteq> a \<and>
        (\<forall>j<5. cnt ! j \<le> cnt ! nat r) \<and> (\<forall>j<nat r. cnt ! j < cnt ! nat r) \<and>
        (\<forall>j<5. j \<noteq> nat r \<longrightarrow> cnt ! j \<le> cnt ! nat a) \<and>
        (\<forall>j<nat a. j \<noteq> nat r \<longrightarrow> cnt ! j < cnt ! nat a)) \<and>
   csp_infer_allele [10, 10, 5, 0, 0] = (0, 1)"
proof -
  let ?init = "if cnt ! 0 < cnt ! 1 then (cnt ! 1, cnt ! 0, 1, 0) else (cnt ! 0, cnt ! 1, 0, 1)"
  obtain m1 m2 k1 k2 where res: "infer_loop cnt 2 ?init = (m1, m2, k1, k2)"
    by (cases "infer_loop cnt 2 ?init") auto
  have "top2 cnt 5 (infer_loop cnt 2 ?init)"
    by (rule top2_loop [OF top2_init]) simp
  then have t: "top2 cnt 5 (m1, m2, k1, k2)" by (simp only: res)
  have run: "csp_infer_allele cnt = (k1, k2)"
    using res by (simp add: csp_infer_allele_def Let_def)
  have ex: "csp_infer_allele [10, 10, 5, 0, 0] = (0, 1)"
    by (simp add: csp_infer_allele_def infer_loop.simps)
  show ?thesis using t ex unfolding run by auto
qed

theorem csp_infer_allele_two_largest_witness:
  "csp_infer_allele [3, 9, 9, 1, 0] = (1, 2) \<and>
   (3::size_t) \<le> 9 \<and> (3::size_t) < 9 \<and> (1::size_t) \<le> 9 \<and> (0::size_t) \<le> 9"
proof -
  have run: "csp_infer_allele [3, 9, 9, 1, 0] = (1, 2)"
    by (simp add: csp_infer_allele_def infer_loop.simps)
  show ?thesis
    using csp_infer_allele_two_largest [of "[3, 9, 9, 1, 0]"] unfolding run by simp
qed

subsection \<open>Quality vector\<close>

lemma qual_vector_order:
  assumes "0 < p"
  shows "nonincreasing4 [c_log (1 - p), c_log (0.75 - 2 / 3 * p), c_log (0.5 - 1 / 3 * p), c_log p]
           \<longleftrightarrow> p \<le> 3 / 8"
proof
  assume le: "p \<le> 3 / 8"
  have pos: "0 < 1 - p" "0 < 0.75 - 2 / 3 * p" "0 < 0.5 - 1 / 3 * p"
    using le assms by simp_all
  show "nonincreasing4 [c_log (1 - p), c_log (0.75 - 2 / 3 * p), c_log (0.5 - 1 / 3 * p), c_log p]"
    using pos assms le by (simp add: nonincreasing4_def c_log_def)
next
  assume "nonincreasing4 [c_log (1 - p), c_log (0.75 - 2 / 3 * p), c_log (0.5 - 1 / 3 * p), c_log p]"
  then have ge: "logval_ge (c_log (0.5 - 1 / 3 * p)) (c_log p)"
    by (simp add: nonincreasing4_def)
  show "p \<le> 3 / 8"
  proof (cases "0 < 0.5 - 1 / 3 * p")
    case True
    with ge assms have "ln p \<le> ln (0.5 - 1 / 3 * p)" by (simp add: c_log_def)
    with True assms have "p \<le> 0.5 - 1 / 3 * p" by simp
    then show ?thesis by simp
  next
    case False
    with ge assms show ?thesis by (simp add: c_log_def split: if_splits)
  qed
qed

lemma powr_tenth_le:
  "(1 / 10) powr (q / 10) \<le> 3 / 8 \<longleftrightarrow> 10 * log 10 (8 / 3) \<le> q"
proof -
  have "(1 / 10) powr (q / 10) \<le> 3 / 8 \<longleftrightarrow> ln ((1 / 10) powr (q / 10)) \<le> ln (3 / 8 :: real)"
    by (rule ln_le_cancel_iff [symmetric]) simp_all
  also have "ln ((1 / 10 :: real) powr (q / 10)) = - (q / 10) * ln 10"
    by (simp add: ln_powr ln_div)
  also have "ln (3 / 8 :: real) = - ln (8 / 3)"
    by (simp add: ln_div)
  also have "- (q / 10) * ln 10 \<le> - ln (8 / 3 :: real) \<longleftrightarrow> 10 * log 10 (8 / 3) \<le> q"
    by (simp add: log_def field_simps)
  finally show ?thesis .
qed

lemma clamp_id: "lo \<le> q \<Longrightarrow> q \<le> hi \<Longrightarrow> max2 (min2 hi q) lo = q"
  by (auto simp: max2_def min2_def)

lemma get_qual_vector_order:
  assumes "lo \<le> q" "q \<le> hi"
  shows "nonincreasing4 (snd (get_qual_vector q hi lo)) \<longleftrightarrow> 10 * log 10 (8 / 3) \<le> q"
proof -
  define p :: real where "p = (1 / 10) powr (q / 10)"
  have pos: "0 < p" by (simp add: p_def)
  have rv: "snd (get_qual_vector q hi lo) =
      [c_log (1 - p), c_log (0.75 - 2 / 3 * p), c_log (0.5 - 1 / 3 * p), c_log p]"
    using assms by (simp add: get_qual_vector_def clamp_id Let_def p_def)
  have "nonincreasing4 (snd (get_qual_vector q hi lo)) \<longleftrightarrow> p \<le> 3 / 8"
    unfolding rv by (rule qual_vector_order [OF pos])
  also have "\<dots> \<longleftrightarrow> 10 * log 10 (8 / 3) \<le> q"
    unfolding p_def by (rule powr_tenth_le)
  finally show ?thesis .
qed

lemma threshold_above_one: "1 < 10 * log 10 (8 / 3 :: real)"
proof -
  have "(10 :: real) < (8 / 3) ^ 10" by (simp add: power_divide)
  then have "ln (10 :: real) < ln ((8 / 3) ^ 10)" by (subst ln_less_cancel_iff) simp_all
  also have "\<dots> = 10 * ln (8 / 3 :: real)" by (simp add: ln_realpow)
  finally show ?thesis by (simp add: log_def field_simps)
qed

lemma threshold_below_ten: "10 * log 10 (8 / 3 :: real) \<le> 10"
proof -
  have "log 10 (8 / 3 :: real) \<le> log 10 10" by (subst log_le_cancel_iff) simp_all
  then show ?thesis by simp
qed

text \<open>
  C3 (amended). For \<open>min_bq \<le> q \<le> cap_bq\<close>, \<^verbatim>\<open>get_qual_vector\<close> returns 0 and four
  values, and these are non-increasing exactly when \<open>q\<close> is at least
  \<open>10 * log10 (8 / 3)\<close> (about 4.26), that is when the error probability
  \<open>10 ^ (- q / 10)\<close> is at most \<open>3 / 8\<close>.
\<close>

theorem get_qual_vector_nonincreasing:
  assumes "lo \<le> q" "q \<le> hi"
  shows "fst (get_qual_vector q hi lo) = 0 \<and> length (snd (get_qual_vector q hi lo)) = 4 \<and>
         (nonincreasing4 (snd (get_qual_vector q hi lo)) \<longleftrightarrow> 10 * log 10 (8 / 3) \<le> q)"
  using get_qual_vector_order [OF assms] by (simp add: get_qual_vector_def Let_def)

theorem get_qual_vector_nonincreasing_witness:
  "(0 :: real) \<le> 10 \<and> (10 :: real) \<le> 45 \<and>
   get_qual_vector 10 45 0 =
     (0, [Finite (ln (9 / 10)), Finite (ln (41 / 60)), Finite (ln (7 / 15)), Finite (ln (1 / 10))]) \<and>
   nonincreasing4 (snd (get_qual_vector 10 45 0))"
proof -
  have "nonincreasing4 (snd (get_qual_vector 10 45 0))"
    using get_qual_vector_nonincreasing [of 0 10 45] threshold_below_ten by simp
  moreover have "get_qual_vector 10 45 0 =
     (0, [Finite (ln (9 / 10)), Finite (ln (41 / 60)), Finite (ln (7 / 15)), Finite (ln (1 / 10))])"
    by (simp add: get_qual_vector_def max2_def min2_def c_log_def Let_def)
  ultimately show ?thesis by simp
qed

text \<open>
  The claim as stated fails at quality 1 with bounds 0 and 45: the vector is not
  non-increasing there.
\<close>

theorem get_qual_vector_increasing_at_one:
  "(0 :: real) \<le> 1 \<and> (1 :: real) \<le> 45 \<and> \<not> nonincreasing4 (snd (get_qual_vector 1 45 0))"
  using get_qual_vector_order [of 0 1 45] threshold_above_one by simp


subsection \<open>Genotype likelihoods\<close>

lemma other_idx_loop_filter:
  "other_idx_loop r a 0 [] =
     (if length (other_bases r a) \<le> 4 then Inr (other_bases r a) else Inl BufferOverflow)"
  by (simp add: other_idx_loop.simps other_bases_def)

lemma other_bases_length:
  "length (other_bases r a) \<le> 4 \<longleftrightarrow> (0 \<le> r \<and> r \<le> 4) \<or> (0 \<le> a \<and> a \<le> 4)"
  unfolding other_bases_def by (simp; presburger)

lemma other_bases_three:
  "0 \<le> r \<Longrightarrow> r \<le> 4 \<Longrightarrow> 0 \<le> a \<Longrightarrow> a \<le> 4 \<Longrightarrow> r \<noteq> a \<Longrightarrow> length (other_bases r a) = 3"
  unfolding other_bases_def by (simp; presburger)

lemma oth_qual_loop_sum:
  "oth_qual_loop qm cnt js (x, y) =
     (x + (\<Sum>i\<leftarrow>js. qm ! nat i ! 3), y + (\<Sum>i\<leftarrow>js. real (unat (cnt ! nat i))))"
  by (induction js arbitrary: x y) (simp_all add: algebra_simps)

text \<open>
  C4. For distinct indices \<open>r\<close> and \<open>a\<close> in \<open>0..4\<close> there are three other bases, and
  \<^verbatim>\<open>qual_matrix_to_geno\<close> returns 0 with the likelihoods of section 4.3: with the doublet
  flag all five entries and \<open>*n = 5\<close>, without it the first three, \<open>*n = 3\<close>, and
  \<open>gl[3]\<close>, \<open>gl[4]\<close> as they were.
\<close>

theorem qual_matrix_to_geno_formula:
  assumes "0 \<le> r" "r \<le> 4" "0 \<le> a" "a \<le> 4" "r \<noteq> a" "length lik = 5"
  shows "qual_matrix_to_geno qm cnt r a db lik =
     (let oc = other_contrib qm cnt r a;
          ref_read = real (unat (cnt ! nat r));
          alt_read = real (unat (cnt ! nat a));
          g0 = oc + qm ! nat r ! 0 + qm ! nat a ! 3 + ln (1 / 3) * alt_read;
          g1 = oc + qm ! nat r ! 2 + qm ! nat a ! 2;
          g2 = oc + qm ! nat r ! 3 + qm ! nat a ! 0 + ln (1 / 3) * ref_read;
          g3 = oc + qm ! nat r ! 1 + ln (1 / 4) * alt_read;
          g4 = oc + qm ! nat a ! 1 + ln (1 / 4) * ref_read
      in if db \<noteq> 0 then Inr (0, [g0, g1, g2, g3, g4], 5)
         else Inr (0, [g0, g1, g2, lik ! 3, lik ! 4], 3))
     \<and> length (other_bases r a) = 3"
proof -
  obtain l0 l1 l2 l3 l4 where lik: "lik = [l0, l1, l2, l3, l4]"
    using assms(6) by (auto simp: length_Suc_conv eval_nat_numeral)
  have n3: "length (other_bases r a) = 3"
    using assms by (simp add: other_bases_three)
  have loop: "other_idx_loop r a 0 [] = Inr (other_bases r a)"
    by (simp add: other_idx_loop_filter n3)
  show ?thesis
    using assms(1-5) n3
    by (simp add: qual_matrix_to_geno_def loop oth_qual_loop_sum other_contrib_def Let_def lik)
qed


theorem qual_matrix_to_geno_formula_witness:
  "(0::int) \<le> 0 \<and> (0::int) \<le> 4 \<and> (0::int) \<le> 2 \<and> (2::int) \<le> 4 \<and> (0::int) \<noteq> 2 \<and>
   length [0, 0, 0, 9, 9 :: real] = 5 \<and>
   qual_matrix_to_geno qm1 [8, 1, 2, 0, 0] 0 2 0 [0, 0, 0, 9, 9] =
     Inr (0, [- 17 + ln (2 / 3) - 1 - 4 + ln (1 / 3) * 2,
              - 17 + ln (2 / 3) - 3 - 3,
              - 17 + ln (2 / 3) - 4 - 1 + ln (1 / 3) * 8, 9, 9], 3)"
  using qual_matrix_to_geno_formula [of 0 2 "[0, 0, 0, 9, 9]" qm1 "[8, 1, 2, 0, 0]" 0]
  by (simp add: other_contrib_def other_bases_def qm1_def Let_def)

text \<open>
  C9. The number of other bases is at most 4, so that the writes to \<open>other_idx[4]\<close>
  stay inside the buffer, exactly when one of the two indices lies in \<open>0..4\<close>; the loop
  returns these bases in that case and overflows the buffer otherwise. With both
  indices negative all five bases are other bases and the call overflows the buffer.
  The call returns without a fault exactly when both indices lie in \<open>0..4\<close>.
\<close>

theorem qual_matrix_to_geno_other_idx_bound:
  "(length (other_bases r a) \<le> 4 \<longleftrightarrow> (0 \<le> r \<and> r \<le> 4) \<or> (0 \<le> a \<and> a \<le> 4)) \<and>
   other_idx_loop r a 0 [] =
     (if length (other_bases r a) \<le> 4 then Inr (other_bases r a) else Inl BufferOverflow) \<and>
   (r < 0 \<and> a < 0 \<longrightarrow>
      other_bases r a = [0, 1, 2, 3, 4] \<and>
      qual_matrix_to_geno qm cnt r a db lik = Inl BufferOverflow) \<and>
   ((\<exists>res. qual_matrix_to_geno qm cnt r a db lik = Inr res) \<longleftrightarrow>
      0 \<le> r \<and> r \<le> 4 \<and> 0 \<le> a \<and> a \<le> 4)"
proof -
  have neg: "other_bases r a = [0, 1, 2, 3, 4]" if "r < 0" "a < 0"
    using that by (simp add: other_bases_def)
  have over: "qual_matrix_to_geno qm cnt r a db lik = Inl BufferOverflow" if "r < 0" "a < 0"
    using neg [OF that] by (simp add: qual_matrix_to_geno_def other_idx_loop_filter)
  have ok: "\<exists>res. qual_matrix_to_geno qm cnt r a db lik = Inr res"
    if "0 \<le> r \<and> r \<le> 4 \<and> 0 \<le> a \<and> a \<le> 4"
  proof -
    have "length (other_bases r a) \<le> 4" using that by (simp add: other_bases_length)
    then show ?thesis
      using that
      by (simp add: qual_matrix_to_geno_def other_idx_loop_filter Let_def split: prod.splits)
  qed
  have range: "0 \<le> r \<and> r \<le> 4 \<and> 0 \<le> a \<and> a \<le> 4"
    if "qual_matrix_to_geno qm cnt r a db lik = Inr res" for res
    using that
    by (auto simp: qual_matrix_to_geno_def other_idx_loop_filter split: if_splits)
  show ?thesis
    using neg over ok range other_bases_length [of r a] other_idx_loop_filter [of r a]
    by blast
qed

theorem qual_matrix_to_geno_other_idx_bound_witness:
  "other_bases (- 1) (- 1) = [0, 1, 2, 3, 4] \<and>
   other_idx_loop (- 1) (- 1) 0 [] = Inl BufferOverflow \<and>
   qual_matrix_to_geno qm1 [8, 1, 2, 0, 0] (- 1) (- 1) 0 [0, 0, 0, 0, 0] = Inl BufferOverflow \<and>
   other_idx_loop (- 1) 2 0 [] = Inr [0, 1, 3, 4] \<and>
   qual_matrix_to_geno qm1 [8, 1, 2, 0, 0] (- 1) 2 0 [0, 0, 0, 0, 0] = Inl OutOfBounds"
proof -
  have a: "other_idx_loop (- 1) 2 0 [] = Inr [0, 1, 3, 4]"
    by (simp add: other_idx_loop.simps)
  have b: "qual_matrix_to_geno qm1 [8, 1, 2, 0, 0] (- 1) 2 0 [0, 0, 0, 0, 0] = Inl OutOfBounds"
    by (simp add: qual_matrix_to_geno_def a)
  show ?thesis
    using qual_matrix_to_geno_other_idx_bound
            [of "- 1" "- 1" qm1 "[8, 1, 2, 0, 0]" 0 "[0, 0, 0, 0, 0]"] a b
    by simp
qed

subsection \<open>Reset\<close>

lemma kv_reset_twice: "kv_reset (kv_reset v) = kv_reset v"
  by (simp add: kv_reset_def)

lemma kh_clear_twice: "kh_clear (kh_clear h) = kh_clear h"
  by (simp add: kh_clear_def)

lemma map_kv_reset_twice: "map kv_reset (map kv_reset vs) = map kv_reset vs"
  by (induction vs) (simp_all add: kv_reset_twice)

lemma map_option_kh_clear_twice:
  "map_option kh_clear (map_option kh_clear h) = map_option kh_clear h"
  by (cases h) (simp_all add: kh_clear_twice)

lemma kv_reset_comp: "kv_reset \<circ> kv_reset = kv_reset"
  by (rule ext) (simp add: kv_reset_twice)

lemma csp_plp_reset_twice: "csp_plp_reset (csp_plp_reset p) = csp_plp_reset p"
  by (cases p) (simp_all add: kv_reset_comp map_option_kh_clear_twice)

lemma sz_pool_reset_twice: "sz_pool_reset f (sz_pool_reset f p) = sz_pool_reset f p"
  by (simp add: sz_pool_reset_def)

lemma map_option_twice:
  "(\<And>x. f (f x) = f x) \<Longrightarrow> map_option f (map_option f y) = map_option f y"
  by (cases y) simp_all

lemma csp_map_sg_reset_val_twice:
  "csp_map_sg_reset_val (csp_map_sg_reset_val h) = csp_map_sg_reset_val h"
proof (induction h)
  case Nil
  show ?case by (simp add: csp_map_sg_reset_val_def)
next
  case (Cons b h)
  have "map_option (\<lambda>(key, v). (key, csp_plp_reset v))
          (map_option (\<lambda>(key, v). (key, csp_plp_reset v)) b) =
        map_option (\<lambda>(key, v). (key, csp_plp_reset v)) b"
    by (rule map_option_twice) (simp add: case_prod_beta csp_plp_reset_twice)
  with Cons show ?case by (simp add: csp_map_sg_reset_val_def)
qed

lemma csp_mplp_reset_twice: "csp_mplp_reset (csp_mplp_reset m) = csp_mplp_reset m"
proof (cases m)
  case None
  then show ?thesis by simp
next
  case (Some p)
  have "map_option csp_map_sg_reset_val (map_option csp_map_sg_reset_val (hsg p)) =
        map_option csp_map_sg_reset_val (hsg p)"
    by (rule map_option_twice) (rule csp_map_sg_reset_val_twice)
  moreover have "map_option csp_pool_uu_reset (map_option csp_pool_uu_reset (pu p)) =
        map_option csp_pool_uu_reset (pu p)"
    by (rule map_option_twice) (simp add: csp_pool_uu_reset_def sz_pool_reset_twice)
  moreover have "map_option csp_pool_ul_reset (map_option csp_pool_ul_reset (pl p)) =
        map_option csp_pool_ul_reset (pl p)"
    by (rule map_option_twice) (simp add: csp_pool_ul_reset_def sz_pool_reset_twice)
  moreover have "map_option csp_pool_ps_reset (map_option csp_pool_ps_reset (su p)) =
        map_option csp_pool_ps_reset (su p)"
    by (rule map_option_twice) (simp add: csp_pool_ps_reset_def sz_pool_reset_twice)
  ultimately show ?thesis using Some by simp
qed

text \<open>
  C8. Resetting twice gives the same state as resetting once, for a per-sample state
  and for an aggregator (each also when the pointer is \<^verbatim>\<open>NULL\<close>).
\<close>

theorem reset_idempotent:
  "csp_plp_reset (csp_plp_reset p) = csp_plp_reset p \<and>
   csp_mplp_reset (csp_mplp_reset m) = csp_mplp_reset m"
  by (simp add: csp_plp_reset_twice csp_mplp_reset_twice)

theorem reset_idempotent_witness:
  "csp_plp_reset (csp_plp_reset (Some plp_a)) = csp_plp_reset (Some plp_a) \<and>
   csp_plp_reset (Some plp_a) =
     Some \<lparr>csp_plp.bc = [0, 0, 0, 0, 0], csp_plp.tc = 0, csp_plp.ad = 0, csp_plp.dp = 0, csp_plp.oth = 0,
           qu = [\<lparr>kv_m = 8, kv_a = []\<rparr>, kv_init, \<lparr>kv_m = 2, kv_a = []\<rparr>, kv_init, kv_init],
           qmat = replicate 5 (replicate 4 0), gl = [Dbl (- 3), Dbl (- 7), Dbl (- 20), Dbl 0, Dbl 0], ngl = 0,
           hug = Some [None, None]\<rparr> \<and>
   csp_mplp_reset (csp_mplp_reset (Some mplp_ab)) = csp_mplp_reset (Some mplp_ab)"
  using reset_idempotent [of "Some plp_a" "Some mplp_ab"]
  by (simp add: plp_a_def kv_reset_def kv_init_def kh_clear_def eval_nat_numeral)


lemma sg_layout_reset_val: "sg_layout (csp_map_sg_reset_val h) = sg_layout h"
  by (induction h) (auto simp: sg_layout_def csp_map_sg_reset_val_def option.map_comp comp_def case_prod_beta)

lemma kh_keys_layout: "kh_keys h = List.map_filter id (sg_layout h)"
  by (induction h) (auto simp: kh_keys_def sg_layout_def List.map_filter_def split: option.splits)

lemma reset_val_nth:
  "k < length h \<Longrightarrow>
     csp_map_sg_reset_val h ! k = map_option (\<lambda>(key, v). (key, csp_plp_reset v)) (h ! k)"
  by (simp add: csp_map_sg_reset_val_def)

lemma reset_val_length: "length (csp_map_sg_reset_val h) = length h"
  by (simp add: csp_map_sg_reset_val_def)

lemma kh_keys_clear: "kh_keys (kh_clear um) = []"
  by (induction um) (simp_all add: kh_keys_def kh_clear_def List.map_filter_def)

lemma csp_plp_reset_clears:
  "\<exists>p'. csp_plp_reset (Some p) = Some p' \<and>
     csp_plp.bc p' = [0, 0, 0, 0, 0] \<and> csp_plp.tc p' = 0 \<and> csp_plp.ad p' = 0 \<and>
     csp_plp.dp p' = 0 \<and> csp_plp.oth p' = 0 \<and>
     map kv_a (qu p') = replicate (length (qu p)) [] \<and> map kv_m (qu p') = map kv_m (qu p) \<and>
     qmat p' = replicate 5 [0, 0, 0, 0] \<and> ngl p' = 0 \<and> gl p' = gl p \<and>
     map_option kh_keys (hug p') = map_option (\<lambda>um. []) (hug p) \<and>
     map_option length (hug p') = map_option length (hug p)"
proof -
  have a: "map kv_a (map kv_reset vs) = replicate (length vs) []" for vs :: "int kvec list"
    by (induction vs) (simp_all add: kv_reset_def)
  have m: "map kv_m (map kv_reset vs) = map kv_m vs" for vs :: "int kvec list"
    by (induction vs) (simp_all add: kv_reset_def)
  have r5: "replicate 5 (0 :: size_t) = [0, 0, 0, 0, 0]"
    "replicate 5 (replicate 4 (0 :: real)) = replicate 5 [0, 0, 0, 0]"
    by (simp_all add: eval_nat_numeral)
  have hg1: "map_option kh_keys (map_option kh_clear (hug p)) = map_option (\<lambda>um. []) (hug p)"
    by (cases "hug p") (simp_all add: kh_keys_clear)
  have hg2: "map_option length (map_option kh_clear (hug p)) = map_option length (hug p)"
    by (cases "hug p") (simp_all add: kh_clear_def)
  show ?thesis
    unfolding csp_plp_reset.simps
    by (intro exI [of _ "the (csp_plp_reset (Some p))"]) (simp add: a m r5 hg1 hg2 del: map_map)
qed

lemma pool_reset_nth:
  "i < length xs \<Longrightarrow>
     (map f (take n xs) @ drop n xs) ! i = (if i < n then f (xs ! i) else xs ! i)"
  by (auto simp: nth_append min_def)

text \<open>
  C10. \<^verbatim>\<open>csp_mplp_reset\<close> leaves \<open>ref_idx\<close>, \<open>alt_idx\<close>, \<open>inf_rid\<close>, \<open>inf_aid\<close>, \<open>nsg\<close>,
  \<open>hsg_iter\<close> and the keys of \<open>hsg\<close> (bucket by bucket) as they were, and a \<^verbatim>\<open>NULL\<close>
  table or pool stays \<^verbatim>\<open>NULL\<close>. It zeroes the site counters and \<open>qvec\<close>. In every bucket
  of \<open>hsg\<close> that holds a sample state, the state afterwards has zero base counts, zero
  \<open>tc\<close>, \<open>ad\<close>, \<open>dp\<close>, \<open>oth\<close>, empty quality lists of unchanged capacity, a zero matrix,
  \<open>ngl = 0\<close>, no UMI group in a table of unchanged size, and the likelihoods \<open>gl\<close> it
  had; a \<^verbatim>\<open>NULL\<close> state stays \<^verbatim>\<open>NULL\<close>. Each pool has no element handed out afterwards and
  the same number of elements: the units are as they were, the lists that were handed
  out are empty, the strings that were handed out are freed, and the elements that were
  not handed out are as they were.
\<close>

theorem csp_mplp_reset_frame:
  "(case csp_mplp_reset (Some m) of
      None \<Rightarrow> False
    | Some m' \<Rightarrow>
        ref_idx m' = ref_idx m \<and> alt_idx m' = alt_idx m \<and>
        inf_rid m' = inf_rid m \<and> inf_aid m' = inf_aid m \<and>
        nsg m' = nsg m \<and> hsg_iter m' = hsg_iter m \<and>
        map_option sg_layout (hsg m') = map_option sg_layout (hsg m) \<and>
        map_option kh_keys (hsg m') = map_option kh_keys (hsg m) \<and>
        csp_mplp.bc m' = replicate 5 0 \<and> csp_mplp.tc m' = 0 \<and> csp_mplp.ad m' = 0 \<and>
        csp_mplp.dp m' = 0 \<and> csp_mplp.oth m' = 0 \<and>
        nr_ad m' = 0 \<and> nr_dp m' = 0 \<and> nr_oth m' = 0 \<and> qvec m' = replicate 4 0 \<and>
        (hsg m = None \<longrightarrow> hsg m' = None) \<and>
        (\<forall>h. hsg m = Some h \<longrightarrow>
           (\<exists>h'. hsg m' = Some h' \<and> length h' = length h \<and>
              (\<forall>k<length h.
                 (h ! k = None \<longrightarrow> h' ! k = None) \<and>
                 (\<forall>key. h ! k = Some (key, None) \<longrightarrow> h' ! k = Some (key, None)) \<and>
                 (\<forall>key p. h ! k = Some (key, Some p) \<longrightarrow>
                    (\<exists>p'. h' ! k = Some (key, Some p') \<and>
                       csp_plp.bc p' = [0, 0, 0, 0, 0] \<and> csp_plp.tc p' = 0 \<and>
                       csp_plp.ad p' = 0 \<and> csp_plp.dp p' = 0 \<and> csp_plp.oth p' = 0 \<and>
                       map kv_a (qu p') = replicate (length (qu p)) [] \<and>
                       map kv_m (qu p') = map kv_m (qu p) \<and>
                       qmat p' = replicate 5 [0, 0, 0, 0] \<and> ngl p' = 0 \<and> gl p' = gl p \<and>
                       map_option kh_keys (hug p') = map_option (\<lambda>um. []) (hug p) \<and>
                       map_option length (hug p') = map_option length (hug p)))))) \<and>
        (pu m = None \<longrightarrow> pu m' = None) \<and>
        (\<forall>q. pu m = Some q \<longrightarrow> pu m' = Some \<lparr>pool_a = pool_a q, pool_n = 0\<rparr>) \<and>
        (pl m = None \<longrightarrow> pl m' = None) \<and>
        (\<forall>q. pl m = Some q \<longrightarrow>
           (\<exists>q'. pl m' = Some q' \<and> pool_n q' = 0 \<and> length (pool_a q') = length (pool_a q) \<and>
              (\<forall>i<length (pool_a q).
                 kv_m (pool_a q' ! i) = kv_m (pool_a q ! i) \<and>
                 kv_a (pool_a q' ! i) = (if i < pool_n q then [] else kv_a (pool_a q ! i))))) \<and>
        (su m = None \<longrightarrow> su m' = None) \<and>
        (\<forall>q. su m = Some q \<longrightarrow>
           (\<exists>q'. su m' = Some q' \<and> pool_n q' = 0 \<and> length (pool_a q') = length (pool_a q) \<and>
              (\<forall>i<length (pool_a q).
                 pool_a q' ! i = (if i < pool_n q then None else pool_a q ! i))))) \<and>
   csp_mplp_reset None = None"
proof -
  have frame: "map_option sg_layout (map_option csp_map_sg_reset_val (hsg m)) = map_option sg_layout (hsg m)"
    "map_option kh_keys (map_option csp_map_sg_reset_val (hsg m)) = map_option kh_keys (hsg m)"
    by (cases "hsg m"; simp add: sg_layout_reset_val kh_keys_layout)+
  have samples: "\<exists>h'. map_option csp_map_sg_reset_val (hsg m) = Some h' \<and> length h' = length h \<and>
      (\<forall>k<length h.
         (h ! k = None \<longrightarrow> h' ! k = None) \<and>
         (\<forall>key. h ! k = Some (key, None) \<longrightarrow> h' ! k = Some (key, None)) \<and>
         (\<forall>key p. h ! k = Some (key, Some p) \<longrightarrow>
            (\<exists>p'. h' ! k = Some (key, Some p') \<and>
               csp_plp.bc p' = [0, 0, 0, 0, 0] \<and> csp_plp.tc p' = 0 \<and>
               csp_plp.ad p' = 0 \<and> csp_plp.dp p' = 0 \<and> csp_plp.oth p' = 0 \<and>
               map kv_a (qu p') = replicate (length (qu p)) [] \<and>
               map kv_m (qu p') = map kv_m (qu p) \<and>
               qmat p' = replicate 5 [0, 0, 0, 0] \<and> ngl p' = 0 \<and> gl p' = gl p \<and>
               map_option kh_keys (hug p') = map_option (\<lambda>um. []) (hug p) \<and>
               map_option length (hug p') = map_option length (hug p))))"
    if h: "hsg m = Some h" for h
  proof (intro exI [of _ "csp_map_sg_reset_val h"] conjI allI impI)
    show "map_option csp_map_sg_reset_val (hsg m) = Some (csp_map_sg_reset_val h)"
      using h by simp
    show "length (csp_map_sg_reset_val h) = length h" by (rule reset_val_length)
  next
    fix k assume "k < length h" "h ! k = None"
    then show "csp_map_sg_reset_val h ! k = None" by (simp add: reset_val_nth)
  next
    fix k key assume "k < length h" "h ! k = Some (key, None)"
    then show "csp_map_sg_reset_val h ! k = Some (key, None)" by (simp add: reset_val_nth)
  next
    fix k key p assume k: "k < length h" "h ! k = Some (key, Some p)"
    from csp_plp_reset_clears [of p] obtain p' where p': "csp_plp_reset (Some p) = Some p'"
      and cl: "csp_plp.bc p' = [0, 0, 0, 0, 0] \<and> csp_plp.tc p' = 0 \<and>
               csp_plp.ad p' = 0 \<and> csp_plp.dp p' = 0 \<and> csp_plp.oth p' = 0 \<and>
               map kv_a (qu p') = replicate (length (qu p)) [] \<and>
               map kv_m (qu p') = map kv_m (qu p) \<and>
               qmat p' = replicate 5 [0, 0, 0, 0] \<and> ngl p' = 0 \<and> gl p' = gl p \<and>
               map_option kh_keys (hug p') = map_option (\<lambda>um. []) (hug p) \<and>
               map_option length (hug p') = map_option length (hug p)"
      by blast
    have "csp_map_sg_reset_val h ! k = Some (key, Some p')"
      using k p' by (simp add: reset_val_nth)
    with cl show "\<exists>p'. csp_map_sg_reset_val h ! k = Some (key, Some p') \<and>
               csp_plp.bc p' = [0, 0, 0, 0, 0] \<and> csp_plp.tc p' = 0 \<and>
               csp_plp.ad p' = 0 \<and> csp_plp.dp p' = 0 \<and> csp_plp.oth p' = 0 \<and>
               map kv_a (qu p') = replicate (length (qu p)) [] \<and>
               map kv_m (qu p') = map kv_m (qu p) \<and>
               qmat p' = replicate 5 [0, 0, 0, 0] \<and> ngl p' = 0 \<and> gl p' = gl p \<and>
               map_option kh_keys (hug p') = map_option (\<lambda>um. []) (hug p) \<and>
               map_option length (hug p') = map_option length (hug p)"
      by blast
  qed
  have idm: "map csp_umi_unit_reset xs = xs" for xs
    by (induction xs) (simp_all add: csp_umi_unit_reset_def)
  have uu: "csp_pool_uu_reset q = \<lparr>pool_a = pool_a q, pool_n = 0\<rparr>" for q
    by (simp add: csp_pool_uu_reset_def sz_pool_reset_def idm)
  have ul: "pool_n (csp_pool_ul_reset q) = 0 \<and>
      length (pool_a (csp_pool_ul_reset q)) = length (pool_a q) \<and>
      (\<forall>i<length (pool_a q).
         kv_m (pool_a (csp_pool_ul_reset q) ! i) = kv_m (pool_a q ! i) \<and>
         kv_a (pool_a (csp_pool_ul_reset q) ! i) = (if i < pool_n q then [] else kv_a (pool_a q ! i)))"
    for q
    by (simp add: csp_pool_ul_reset_def sz_pool_reset_def pool_reset_nth csp_list_uu_reset_def
          kv_reset_def)
  have ps: "pool_n (csp_pool_ps_reset q) = 0 \<and>
      length (pool_a (csp_pool_ps_reset q)) = length (pool_a q) \<and>
      (\<forall>i<length (pool_a q).
         pool_a (csp_pool_ps_reset q) ! i = (if i < pool_n q then None else pool_a q ! i))"
    for q
    by (simp add: csp_pool_ps_reset_def sz_pool_reset_def pool_reset_nth csp_pool_str_reset_def)
  show ?thesis
    using frame samples uu ul ps by simp
qed


theorem csp_mplp_reset_frame_witness:
  "csp_mplp_reset (Some mplp_pools) =
     Some (csp_mplp_init
       \<lparr>ref_idx := 0, alt_idx := 2, inf_rid := - 1, inf_aid := - 1,
        hsg := Some [Some (''s1'', Some
                 \<lparr>csp_plp.bc = [0, 0, 0, 0, 0], csp_plp.tc = 0, csp_plp.ad = 0, csp_plp.dp = 0,
                  csp_plp.oth = 0,
                  qu = [\<lparr>kv_m = 8, kv_a = []\<rparr>, kv_init, \<lparr>kv_m = 2, kv_a = []\<rparr>, kv_init, kv_init],
                  qmat = replicate 5 [0, 0, 0, 0],
                  gl = [Dbl (- 3), Dbl (- 7), Dbl (- 20), Dbl 0, Dbl 0], ngl = 0,
                  hug = Some [None, None]\<rparr>),
                     Some (''s2'', Some plp_b)],
        hsg_iter := Some [0, 1], nsg := 2,
        pu := Some \<lparr>pool_a = [\<lparr>base = 1, qual = 30\<rparr>, \<lparr>base = 4, qual = 12\<rparr>], pool_n = 0\<rparr>,
        pl := Some \<lparr>pool_a = [\<lparr>kv_m = 4, kv_a = []\<rparr>, \<lparr>kv_m = 2, kv_a = [7]\<rparr>], pool_n = 0\<rparr>,
        su := Some \<lparr>pool_a = [None, None], pool_n = 0\<rparr>\<rparr>)"
proof -
  have a: "csp_plp_reset (Some plp_a) = Some
                 \<lparr>csp_plp.bc = [0, 0, 0, 0, 0], csp_plp.tc = 0, csp_plp.ad = 0, csp_plp.dp = 0,
                  csp_plp.oth = 0,
                  qu = [\<lparr>kv_m = 8, kv_a = []\<rparr>, kv_init, \<lparr>kv_m = 2, kv_a = []\<rparr>, kv_init, kv_init],
                  qmat = replicate 5 [0, 0, 0, 0],
                  gl = [Dbl (- 3), Dbl (- 7), Dbl (- 20), Dbl 0, Dbl 0], ngl = 0,
                  hug = Some [None, None]\<rparr>"
    by (simp add: plp_a_def kv_reset_def kv_init_def kh_clear_def eval_nat_numeral)
  have b: "csp_plp_reset (Some plp_b) = Some plp_b"
    by (simp add: plp_b_def kv_reset_def kv_init_def eval_nat_numeral)
  have run: "csp_mplp_reset (Some mplp_pools) =
     Some (csp_mplp_init
       \<lparr>ref_idx := 0, alt_idx := 2, inf_rid := - 1, inf_aid := - 1,
        hsg := Some [Some (''s1'', Some
                 \<lparr>csp_plp.bc = [0, 0, 0, 0, 0], csp_plp.tc = 0, csp_plp.ad = 0, csp_plp.dp = 0,
                  csp_plp.oth = 0,
                  qu = [\<lparr>kv_m = 8, kv_a = []\<rparr>, kv_init, \<lparr>kv_m = 2, kv_a = []\<rparr>, kv_init, kv_init],
                  qmat = replicate 5 [0, 0, 0, 0],
                  gl = [Dbl (- 3), Dbl (- 7), Dbl (- 20), Dbl 0, Dbl 0], ngl = 0,
                  hug = Some [None, None]\<rparr>),
                     Some (''s2'', Some plp_b)],
        hsg_iter := Some [0, 1], nsg := 2,
        pu := Some \<lparr>pool_a = [\<lparr>base = 1, qual = 30\<rparr>, \<lparr>base = 4, qual = 12\<rparr>], pool_n = 0\<rparr>,
        pl := Some \<lparr>pool_a = [\<lparr>kv_m = 4, kv_a = []\<rparr>, \<lparr>kv_m = 2, kv_a = [7]\<rparr>], pool_n = 0\<rparr>,
        su := Some \<lparr>pool_a = [None, None], pool_n = 0\<rparr>\<rparr>)"
    by (simp add: mplp_pools_def mplp_ab_def csp_mplp_init_def csp_map_sg_reset_val_def a b
          csp_pool_uu_reset_def csp_pool_ul_reset_def csp_pool_ps_reset_def sz_pool_reset_def
          csp_umi_unit_reset_def csp_list_uu_reset_def kv_reset_def csp_pool_str_reset_def
          del: csp_plp_reset.simps)
  show ?thesis
    using csp_mplp_reset_frame [of mplp_pools] by (simp only: run)
qed

subsection \<open>Sample groups\<close>

lemma set_kh_keys: "set (kh_keys h) = {key. \<exists>v. Some (key, v) \<in> set h}"
  by (induction h) (auto simp: kh_keys_def List.map_filter_def)

lemma bucket_of_None: "bucket_of h key k = None \<longleftrightarrow> key \<notin> set (kh_keys h)"
  by (induction h arbitrary: k) (auto simp: set_kh_keys split: option.splits)

lemma empty_bucket_Some:
  "empty_bucket h k = Some j \<Longrightarrow> k \<le> j \<and> j - k < length h \<and> h ! (j - k) = None"
proof (induction h arbitrary: k)
  case Nil
  then show ?case by simp
next
  case (Cons b h)
  show ?case
  proof (cases b)
    case None
    with Cons.prems show ?thesis by simp
  next
    case (Some e)
    with Cons.prems have "empty_bucket h (Suc k) = Some j" by simp
    from Cons.IH [OF this] show ?thesis by (auto simp: Suc_diff_le)
  qed
qed

lemma set_kh_keys_update:
  "j < length h \<Longrightarrow> h ! j = None \<Longrightarrow>
     set (kh_keys (h[j := Some (key, v)])) = insert key (set (kh_keys h))"
  unfolding set_kh_keys
  by (auto simp: set_conv_nth nth_list_update split: if_splits) (metis option.distinct(1))+

lemma set_kh_keys_append:
  "set (kh_keys (h @ [Some (key, v)])) = insert key (set (kh_keys h))"
  unfolding set_kh_keys by auto

lemma sg_layout_set_val: "sg_layout (kh_set_val h k v) = sg_layout h"
proof (cases "h ! k")
  case None
  then show ?thesis by (simp add: kh_set_val_def)
next
  case (Some e)
  obtain key v' where e: "e = (key, v')" by (cases e)
  show ?thesis
  proof (cases "k < length h")
    case True
    have "(map (map_option fst) h)[k := Some key] = map (map_option fst) h"
      using True Some e by (simp add: list_update_same_conv)
    then show ?thesis using Some e by (simp add: kh_set_val_def sg_layout_def map_update)
  next
    case False
    then show ?thesis using Some e by (simp add: kh_set_val_def list_update_beyond)
  qed
qed

lemma set_kh_keys_set_val: "set (kh_keys (kh_set_val h k v)) = set (kh_keys h)"
  by (simp add: kh_keys_layout sg_layout_set_val)

lemma kh_put_new:
  assumes "kh_put alloc_ok h key v0 = (h', k, r)" "0 < r"
  shows "key \<notin> set (kh_keys h) \<and> set (kh_keys h') = insert key (set (kh_keys h))"
proof (cases "bucket_of h key 0")
  case (Some j)
  with assms show ?thesis by (simp add: kh_put_def)
next
  case None
  then have notin: "key \<notin> set (kh_keys h)" by (simp add: bucket_of_None)
  show ?thesis
  proof (cases "empty_bucket h 0")
    case (Some j)
    from empty_bucket_Some [OF this] have "j < length h" "h ! j = None" by simp_all
    then show ?thesis
      using assms None Some notin by (auto simp: kh_put_def set_kh_keys_update)
  next
    case None': None
    show ?thesis
      using assms None None' notin
      by (auto simp: kh_put_def set_kh_keys_append split: if_splits)
  qed
qed

lemma sg_put_loop_Stored:
  "sg_put_loop alloc_ok h s = Stored h' \<Longrightarrow>
     distinct s \<and> None \<notin> set s \<and> (\<forall>x. Some x \<in> set s \<longrightarrow> x \<notin> set (kh_keys h))"
proof (induction s arbitrary: h)
  case Nil
  then show ?case by simp
next
  case (Cons x s)
  show ?case
  proof (cases x)
    case None
    with Cons.prems show ?thesis by simp
  next
    case (Some name)
    obtain h1 k r where put: "kh_put alloc_ok h name None = (h1, k, r)"
      by (cases "kh_put alloc_ok h name None") auto
    with Cons.prems Some have r: "0 < r"
      and rest: "sg_put_loop alloc_ok (kh_set_val h1 k None) s = Stored h'"
      by (auto split: if_splits)
    from kh_put_new [OF put r]
    have new: "name \<notin> set (kh_keys h)" and keys: "set (kh_keys h1) = insert name (set (kh_keys h))"
      by simp_all
    from Cons.IH [OF rest]
    have ih: "distinct s" "None \<notin> set s"
      "\<forall>x. Some x \<in> set s \<longrightarrow> x \<notin> set (kh_keys (kh_set_val h1 k None))"
      by simp_all
    from ih(3) keys have "\<forall>x. Some x \<in> set s \<longrightarrow> x \<noteq> name \<and> x \<notin> set (kh_keys h)"
      by (simp add: set_kh_keys_set_val)
    with ih(1,2) new Some show ?thesis by auto
  qed
qed

lemma set_sg_not_Stored:
  assumes "\<And>h'. sg_put_loop alloc_ok (case hsg p of None \<Rightarrow> kh_init | Some h \<Rightarrow> h) s \<noteq> Stored h'"
  shows "\<exists>p'. csp_mplp_set_sg alloc_ok (Some p) (Some s) = Inr (- 1, p')"
proof -
  let ?h0 = "case hsg p of None \<Rightarrow> kh_init | Some h \<Rightarrow> h"
  show ?thesis
  proof (cases "sg_put_loop alloc_ok ?h0 s")
    case (Stored h')
    with assms [of h'] show ?thesis by simp
  next
    case Rejected
    then show ?thesis by (cases alloc_ok; simp add: csp_mplp_set_sg_def Let_def)
  next
    case (NullName h')
    then show ?thesis by (cases alloc_ok; simp add: csp_mplp_set_sg_def Let_def)
  qed
qed

lemma set_sg_duplicates:
  assumes "\<not> distinct s"
  shows "\<exists>p'. csp_mplp_set_sg alloc_ok p (Some s) = Inr (- 1, p')"
proof (cases p)
  case None
  then show ?thesis by (simp add: csp_mplp_set_sg_def)
next
  case (Some p0)
  have "sg_put_loop alloc_ok (case hsg p0 of None \<Rightarrow> kh_init | Some h \<Rightarrow> h) s \<noteq> Stored h'" for h'
    using sg_put_loop_Stored assms by blast
  from set_sg_not_Stored [of alloc_ok p0 s, OF this] Some show ?thesis by simp
qed

lemma set_sg_known_name:
  assumes "hsg p = Some h" "Some x \<in> set s" "x \<in> set (kh_keys h)"
  shows "\<exists>p'. csp_mplp_set_sg alloc_ok (Some p) (Some s) = Inr (- 1, p')"
proof -
  have "sg_put_loop alloc_ok (case hsg p of None \<Rightarrow> kh_init | Some h \<Rightarrow> h) s \<noteq> Stored h'" for h'
    using sg_put_loop_Stored [of alloc_ok h s h'] assms by auto
  from set_sg_not_Stored [of alloc_ok p s, OF this] show ?thesis .
qed


lemma kh_keys_fresh: "kh_keys (fresh_table names) = names"
  by (induction names) (simp_all add: fresh_table_def kh_keys_def List.map_filter_def)

lemma empty_bucket_fresh: "empty_bucket (fresh_table names) k = None"
  by (induction names arbitrary: k) (simp_all add: fresh_table_def)

lemma bucket_of_fresh:
  "y \<notin> set pre \<Longrightarrow> bucket_of (fresh_table (pre @ y # ys)) y k = Some (k + length pre)"
  by (induction pre arbitrary: k) (auto simp: fresh_table_def)

lemma kh_put_fresh:
  assumes "name \<notin> set pre"
  shows "kh_put True (fresh_table pre) name None = (fresh_table (pre @ [name]), length pre, 1)"
proof -
  have "bucket_of (fresh_table pre) name 0 = None"
    using assms by (simp add: bucket_of_None kh_keys_fresh)
  then show ?thesis
    by (simp add: kh_put_def empty_bucket_fresh) (simp add: fresh_table_def)
qed

lemma kh_set_val_fresh:
  "kh_set_val (fresh_table (pre @ [name])) (length pre) None = fresh_table (pre @ [name])"
proof -
  have "length (map (\<lambda>n. Some (n, None :: csp_plp option)) pre) = length pre" by simp
  then show ?thesis
    by (simp add: kh_set_val_def fresh_table_def nth_append list_update_append
          del: length_map)
qed

lemma sg_put_loop_fresh:
  "distinct (pre @ names) \<Longrightarrow>
     sg_put_loop True (fresh_table pre) (map Some names) = Stored (fresh_table (pre @ names))"
proof (induction names arbitrary: pre)
  case Nil
  then show ?case by simp
next
  case (Cons y ys)
  then have "y \<notin> set pre" and "distinct ((pre @ [y]) @ ys)" by auto
  with Cons.IH [of "pre @ [y]"] show ?case
    by (simp add: kh_put_fresh kh_set_val_fresh)
qed

lemma sg_iter_loop_fresh:
  assumes "distinct (pre @ rest)" "length iters = length (pre @ rest)"
  shows "\<exists>res. sg_iter_loop (fresh_table (pre @ rest)) (map Some rest) (length pre) iters = Inr (Some res) \<and>
           length res = length iters \<and>
           (\<forall>j<length pre. res ! j = iters ! j) \<and>
           (\<forall>j. length pre \<le> j \<and> j < length (pre @ rest) \<longrightarrow> res ! j = j)"
  using assms
proof (induction rest arbitrary: pre iters)
  case Nil
  then show ?case by simp
next
  case (Cons y ys)
  let ?h = "fresh_table (pre @ y # ys)"
  have y: "y \<notin> set pre" using Cons.prems(1) by auto
  have get: "kh_get ?h y = length pre"
    using bucket_of_fresh [OF y, of ys 0] by (simp add: kh_get_def)
  have "distinct ((pre @ [y]) @ ys)" using Cons.prems(1) by simp
  moreover have "length (iters[length pre := length pre]) = length ((pre @ [y]) @ ys)"
    using Cons.prems(2) by simp
  ultimately obtain res where
    run: "sg_iter_loop (fresh_table ((pre @ [y]) @ ys)) (map Some ys) (length (pre @ [y]))
            (iters[length pre := length pre]) = Inr (Some res)"
    and len: "length res = length (iters[length pre := length pre])"
    and low: "\<forall>j<length (pre @ [y]). res ! j = iters[length pre := length pre] ! j"
    and high: "\<forall>j. length (pre @ [y]) \<le> j \<and> j < length ((pre @ [y]) @ ys) \<longrightarrow> res ! j = j"
    using Cons.IH [of "pre @ [y]" "iters[length pre := length pre]"] by blast
  have step: "sg_iter_loop ?h (map Some (y # ys)) (length pre) iters = Inr (Some res)"
    using run get Cons.prems(2) by (simp add: kh_end_def fresh_table_def)
  have "\<forall>j<length pre. res ! j = iters ! j"
    using low by (auto simp: nth_list_update)
  moreover have "\<forall>j. length pre \<le> j \<and> j < length (pre @ y # ys) \<longrightarrow> res ! j = j"
  proof (intro allI impI)
    fix j assume j: "length pre \<le> j \<and> j < length (pre @ y # ys)"
    show "res ! j = j"
    proof (cases "j = length pre")
      case True
      then show ?thesis using low Cons.prems(2) by (simp add: nth_list_update)
    next
      case False
      with j high show ?thesis by simp
    qed
  qed
  ultimately show ?case using step len by simp
qed

lemma kh_key_fresh: "i < length names \<Longrightarrow> kh_key (fresh_table names) i = Inr (names ! i)"
  by (simp add: kh_key_def kh_exist_def fresh_table_def)

lemma set_sg_fresh:
  assumes "names \<noteq> []" "distinct names" "hsg p = None" "hsg_iter p = None"
  shows "\<exists>iters. csp_mplp_set_sg True (Some p) (Some (map Some names)) =
           Inr (0, Some (p\<lparr>hsg := Some (fresh_table names), hsg_iter := Some iters,
                             nsg := int (length names)\<rparr>)) \<and>
           length iters = length names \<and> (\<forall>i<length names. iters ! i = i)"
proof -
  have put: "sg_put_loop True kh_init (map Some names) = Stored (fresh_table names)"
    using sg_put_loop_fresh [of "[]" names] assms(2) by (simp add: fresh_table_def kh_init_def)
  obtain res where
    run: "sg_iter_loop (fresh_table names) (map Some names) 0 (replicate (length names) 0) =
            Inr (Some res)"
    and len: "length res = length names"
    and idx: "\<forall>j<length names. res ! j = j"
    using sg_iter_loop_fresh [of "[]" names "replicate (length names) 0"] assms(2) by auto
  have "csp_mplp_set_sg True (Some p) (Some (map Some names)) =
           Inr (0, Some (p\<lparr>hsg := Some (fresh_table names), hsg_iter := Some res,
                             nsg := int (length names)\<rparr>))"
    using assms put run by (simp add: csp_mplp_set_sg_def Let_def)
  with len idx show ?thesis by blast
qed


text \<open>
  C2 (amended). On an aggregator without a table and without an iterator array, and
  with allocations that succeed, \<^verbatim>\<open>csp_mplp_set_sg\<close> returns 0 for every non-empty list
  of distinct names; afterwards \<open>nsg\<close> is the number of names and \<open>hsg_iter[i]\<close> is the
  bucket whose key is the \<open>i\<close>-th name. A further call on that aggregator returns -1
  whenever one of its names is among the names already set. On every aggregator, a list
  with a repeated entry makes the call return -1.
\<close>

theorem csp_mplp_set_sg_contract:
  "(names \<noteq> [] \<and> distinct names \<and> hsg p = None \<and> hsg_iter p = None \<longrightarrow>
      (\<exists>p1 h iters.
         csp_mplp_set_sg True (Some p) (Some (map Some names)) = Inr (0, Some p1) \<and>
         hsg p1 = Some h \<and> hsg_iter p1 = Some iters \<and> nsg p1 = int (length names) \<and>
         length iters = length names \<and>
         (\<forall>i<length names. kh_key h (iters ! i) = Inr (names ! i)) \<and>
         (\<forall>alloc_ok s x. Some x \<in> set s \<and> x \<in> set names \<longrightarrow>
            (\<exists>p2. csp_mplp_set_sg alloc_ok (Some p1) (Some s) = Inr (- 1, p2))))) \<and>
   (\<not> distinct s \<longrightarrow> (\<exists>p'. csp_mplp_set_sg alloc_ok q (Some s) = Inr (- 1, p')))"
proof (intro conjI impI)
  assume "\<not> distinct s"
  then show "\<exists>p'. csp_mplp_set_sg alloc_ok q (Some s) = Inr (- 1, p')"
    by (rule set_sg_duplicates)
next
  assume a: "names \<noteq> [] \<and> distinct names \<and> hsg p = None \<and> hsg_iter p = None"
  then obtain iters where
    run: "csp_mplp_set_sg True (Some p) (Some (map Some names)) =
           Inr (0, Some (p\<lparr>hsg := Some (fresh_table names), hsg_iter := Some iters,
                             nsg := int (length names)\<rparr>))"
    and len: "length iters = length names" and idx: "\<forall>i<length names. iters ! i = i"
    using set_sg_fresh [of names p] by blast
  let ?p1 = "p\<lparr>hsg := Some (fresh_table names), hsg_iter := Some iters,
               nsg := int (length names)\<rparr>"
  have key: "\<forall>i<length names. kh_key (fresh_table names) (iters ! i) = Inr (names ! i)"
    using idx by (simp add: kh_key_fresh)
  have again: "\<exists>p2. csp_mplp_set_sg ok (Some ?p1) (Some s') = Inr (- 1, p2)"
    if "Some x \<in> set s' \<and> x \<in> set names" for ok s' x
    using set_sg_known_name [of ?p1 "fresh_table names" x s' ok] that
    by (simp add: kh_keys_fresh)
  show "\<exists>p1 h iters.
         csp_mplp_set_sg True (Some p) (Some (map Some names)) = Inr (0, Some p1) \<and>
         hsg p1 = Some h \<and> hsg_iter p1 = Some iters \<and> nsg p1 = int (length names) \<and>
         length iters = length names \<and>
         (\<forall>i<length names. kh_key h (iters ! i) = Inr (names ! i)) \<and>
         (\<forall>alloc_ok s x. Some x \<in> set s \<and> x \<in> set names \<longrightarrow>
            (\<exists>p2. csp_mplp_set_sg alloc_ok (Some p1) (Some s) = Inr (- 1, p2)))"
    using run len key again by (intro exI [of _ ?p1] exI [of _ "fresh_table names"] exI [of _ iters]) simp
qed

lemma set_sg_s1_s2:
  "csp_mplp_set_sg True (Some csp_mplp_init) (Some [Some ''s1'', Some ''s2'']) = Inr (0, Some sg_both)"
  by (simp add: csp_mplp_set_sg_def csp_mplp_init_def sg_both_def kh_init_def kh_put_def
        kh_set_val_def kh_get_def kh_end_def Let_def)

theorem csp_mplp_set_sg_contract_witness:
  "csp_mplp_set_sg True (Some csp_mplp_init) (Some [Some ''s1'', Some ''s2'']) = Inr (0, Some sg_both) \<and>
   csp_mplp_set_sg True (Some sg_both) (Some [Some ''s1'', Some ''s2'']) = Inr (- 1, None) \<and>
   csp_mplp_set_sg True (Some csp_mplp_init) (Some [Some ''s1'', Some ''s1'']) = Inr (- 1, None)"
proof -
  have "csp_mplp_set_sg True (Some sg_both) (Some [Some ''s1'', Some ''s2'']) = Inr (- 1, None)"
    by (simp add: csp_mplp_set_sg_def sg_both_def csp_mplp_init_def kh_put_def Let_def)
  moreover
  have "csp_mplp_set_sg True (Some csp_mplp_init) (Some [Some ''s1'', Some ''s1'']) = Inr (- 1, None)"
    by (simp add: csp_mplp_set_sg_def csp_mplp_init_def kh_init_def kh_put_def kh_set_val_def Let_def)
  ultimately show ?thesis
    using csp_mplp_set_sg_contract [of "[''s1'', ''s2'']" csp_mplp_init "[Some ''s1'', Some ''s1'']" True "Some csp_mplp_init"]
      set_sg_s1_s2
    by simp
qed

text \<open>
  The claim as stated fails for a second call with a new name: it returns 0, and
  \<open>hsg_iter[0]\<close> then designates the new name.
\<close>

theorem csp_mplp_set_sg_second_call_succeeds:
  "csp_mplp_set_sg True (Some csp_mplp_init) (Some [Some ''s1'']) = Inr (0, Some sg_once) \<and>
   csp_mplp_set_sg True (Some sg_once) (Some [Some ''s2'']) =
     Inr (0, Some (sg_once\<lparr>hsg := Some [Some (''s1'', None), Some (''s2'', None)],
                            hsg_iter := Some [1], nsg := 1\<rparr>))"
  by (simp add: csp_mplp_set_sg_def csp_mplp_init_def sg_once_def kh_init_def kh_put_def
        kh_set_val_def kh_get_def kh_end_def Let_def)

subsection \<open>Sparse-matrix formatters\<close>

text \<open>
  With an iterator array of \<open>nsg\<close> entries (what \<^verbatim>\<open>csp_mplp_set_sg\<close> allocates) and at
  least one sample group, both string formatters read \<open>hsg_iter[nsg]\<close>, which is outside
  the array, unless they have failed before.
\<close>

lemma str_mtx_loop_faults:
  assumes "hsg_iter m = Some iters" "int (length iters) \<le> nsg m" "i \<le> nsg m"
  shows "\<exists>e. str_mtx_loop m idx i ks = Inl e"
  using assms
proof (induction m idx i ks rule: str_mtx_loop.induct)
  case (1 mplp idx i ks_ad ks_dp ks_oth)
  show ?case
  proof (cases "sg_plp_at mplp i")
    case (Inl e)
    with 1 show ?thesis by (simp add: str_mtx_loop.simps [of mplp idx i])
  next
    case (Inr plp)
    have "i < nsg mplp"
    proof (rule ccontr)
      assume "\<not> i < nsg mplp"
      with 1 have "\<not> (0 \<le> i \<and> nat i < length iters)" by auto
      with 1 Inr show False by (auto simp: sg_plp_at_def split: option.splits)
    qed
    then have "i + 1 \<le> nsg mplp" by simp
    from "1.IH" [OF _ Inr "1.prems"(1,2) this] "1.prems" Inr show ?thesis
      by (simp add: str_mtx_loop.simps [of mplp idx i])
  qed
qed

lemma csp_mplp_str_mtx_faults:
  assumes "hsg_iter m = Some iters" "int (length iters) \<le> nsg m" "1 \<le> nsg m"
  shows "\<exists>e. csp_mplp_str_mtx m ks_ad ks_dp ks_oth idx = Inl e"
proof -
  from str_mtx_loop_faults [OF assms(1,2), of 1 idx "(ks_ad, ks_dp, ks_oth)"] assms(3)
  obtain e where "str_mtx_loop m idx 1 (ks_ad, ks_dp, ks_oth) = Inl e" by auto
  then show ?thesis by (simp add: csp_mplp_str_mtx_def)
qed

lemma str_mtx_tmp_loop_faults:
  assumes "hsg_iter m = Some iters" "int (length iters) \<le> nsg m" "i \<le> nsg m"
  shows "\<exists>e. str_mtx_tmp_loop m i ks = Inl e"
  using assms
proof (induction m i ks rule: str_mtx_tmp_loop.induct)
  case (1 mplp i ks_ad ks_dp ks_oth)
  show ?case
  proof (cases "sg_plp_at mplp i")
    case (Inl e)
    with 1 show ?thesis by (simp add: str_mtx_tmp_loop.simps [of mplp i])
  next
    case (Inr plp)
    have "i < nsg mplp"
    proof (rule ccontr)
      assume "\<not> i < nsg mplp"
      with 1 have "\<not> (0 \<le> i \<and> nat i < length iters)" by auto
      with 1 Inr show False by (auto simp: sg_plp_at_def split: option.splits)
    qed
    then have "i + 1 \<le> nsg mplp" by simp
    from "1.IH" [OF _ Inr "1.prems"(1,2) this] "1.prems" Inr show ?thesis
      by (simp add: str_mtx_tmp_loop.simps [of mplp i])
  qed
qed

lemma csp_mplp_str_mtx_tmp_faults:
  assumes "hsg_iter m = Some iters" "int (length iters) \<le> nsg m" "1 \<le> nsg m"
  shows "\<exists>e. csp_mplp_str_mtx_tmp m ks_ad ks_dp ks_oth = Inl e"
proof -
  from str_mtx_tmp_loop_faults [OF assms(1,2), of 1 "(ks_ad, ks_dp, ks_oth)"] assms(3)
  obtain e where "str_mtx_tmp_loop m 1 (ks_ad, ks_dp, ks_oth) = Inl e" by auto
  then show ?thesis by (simp add: csp_mplp_str_mtx_tmp_def)
qed

lemma sg_plp_at_ac:
  "sg_plp_at mplp_ac 0 = Inr plp_a" "sg_plp_at mplp_ac 1 = Inr plp_c"
  "sg_plp_at mplp_ac 2 = Inl OutOfBounds"
  by (simp_all add: sg_plp_at_def mplp_ac_def mplp_ab_def kh_val_def kh_exist_def)

text \<open>
  C1. For the aggregator \<open>mplp_ac\<close> (two sample groups with alt counts 2 and 4) the
  claim asks for the lines of sample 1 with value 2 and of sample 2 with value 4.
  \<^verbatim>\<open>csp_mplp_str_mtx\<close> and \<^verbatim>\<open>csp_mplp_str_mtx_tmp\<close> read \<open>hsg_iter[1]\<close> for sample index 1,
  which is the second group, and then \<open>hsg_iter[2]\<close> outside the array. The sibling
  \<^verbatim>\<open>csp_mplp_to_mtx\<close>, which reads \<open>hsg_iter[i - 1]\<close>, writes the lines the claim
  describes.
\<close>

theorem csp_mplp_str_mtx_off_by_one:
  "sg_plp_at mplp_ac 1 = Inr plp_c \<and> csp_plp.ad plp_c = 4 \<and>
   sg_plp_at mplp_ac 2 = Inl OutOfBounds \<and>
   csp_mplp_str_mtx mplp_ac [] [] [] 1 = Inl OutOfBounds \<and>
   csp_mplp_str_mtx_tmp mplp_ac [] [] [] = Inl OutOfBounds \<and>
   csp_mplp_to_mtx mplp_ac \<lparr>is_tmp = False, written = []\<rparr> \<lparr>is_tmp = False, written = []\<rparr>
       \<lparr>is_tmp = True, written = []\<rparr> 1 =
     Inr (0, \<lparr>is_tmp = False, written = mtx_line 1 1 2 @ mtx_line 1 2 4\<rparr>,
             \<lparr>is_tmp = False, written = mtx_line 1 1 10 @ mtx_line 1 2 7\<rparr>,
             \<lparr>is_tmp = True, written = [newline]\<rparr>)"
proof -
  have nsg: "nsg mplp_ac = 2" by (simp add: mplp_ac_def mplp_ab_def)
  have vals: "csp_plp.ad plp_a = 2" "csp_plp.dp plp_a = 10" "csp_plp.oth plp_a = 0"
    "csp_plp.ad plp_c = 4" "csp_plp.dp plp_c = 7" "csp_plp.oth plp_c = 0"
    by (simp_all add: plp_a_def plp_c_def plp_b_def)
  have a: "csp_mplp_str_mtx mplp_ac [] [] [] 1 = Inl OutOfBounds"
    by (simp add: csp_mplp_str_mtx_def str_mtx_loop.simps [of mplp_ac] nsg sg_plp_at_ac vals)
  have b: "csp_mplp_str_mtx_tmp mplp_ac [] [] [] = Inl OutOfBounds"
    by (simp add: csp_mplp_str_mtx_tmp_def str_mtx_tmp_loop.simps [of mplp_ac] nsg sg_plp_at_ac vals)
  have c: "csp_mplp_to_mtx mplp_ac \<lparr>is_tmp = False, written = []\<rparr> \<lparr>is_tmp = False, written = []\<rparr>
       \<lparr>is_tmp = True, written = []\<rparr> 1 =
     Inr (0, \<lparr>is_tmp = False, written = mtx_line 1 1 2 @ mtx_line 1 2 4\<rparr>,
             \<lparr>is_tmp = False, written = mtx_line 1 1 10 @ mtx_line 1 2 7\<rparr>,
             \<lparr>is_tmp = True, written = [newline]\<rparr>)"
    by (simp add: csp_mplp_to_mtx_def to_mtx_loop.simps [of mplp_ac] nsg sg_plp_at_ac vals
          to_mtx_put_def to_mtx_close_def jf_puts_def)
  show ?thesis using a b c sg_plp_at_ac vals by simp
qed

lemma to_mtx_put_lines:
  "jf_append (to_mtx_put f idx (int k + 1) v) (mtx_lines (is_tmp f) idx (Suc k) vs) =
   jf_append f (mtx_lines (is_tmp f) idx k (v # vs))"
  by (simp add: jf_append_def to_mtx_put_def jf_puts_def mtx_lines_def)

lemma is_tmp_to_mtx_put: "is_tmp (to_mtx_put f idx i v) = is_tmp f"
  by (simp add: to_mtx_put_def jf_puts_def)

lemma to_mtx_loop_run:
  assumes "\<forall>j<length plps. sg_plp_at m (int j) = Inr (plps ! j)" "nsg m = int (length plps)"
  shows "k \<le> length plps \<Longrightarrow>
     to_mtx_loop m idx (int k + 1) (fa, fd, fo) =
       Inr (jf_append fa (mtx_lines (is_tmp fa) idx k (map csp_plp.ad (drop k plps))),
            jf_append fd (mtx_lines (is_tmp fd) idx k (map csp_plp.dp (drop k plps))),
            jf_append fo (mtx_lines (is_tmp fo) idx k (map csp_plp.oth (drop k plps))))"
proof (induction "length plps - k" arbitrary: k fa fd fo)
  case 0
  then have k: "k = length plps" by simp
  have "to_mtx_loop m idx (int (length plps) + 1) (fa, fd, fo) = Inr (fa, fd, fo)"
    using assms(2) by (simp add: to_mtx_loop.simps [of m idx "int (length plps) + 1"])
  then show ?case
    using k by (simp add: jf_append_def mtx_lines_def)
next
  case (Suc d)
  then have k: "k < length plps" by simp
  have at: "sg_plp_at m (int k) = Inr (plps ! k)" using assms(1) k by simp
  have dr: "drop k plps = plps ! k # drop (Suc k) plps"
    using k by (simp add: Cons_nth_drop_Suc)
  have d: "d = length plps - Suc k" using Suc.hyps(2) by simp
  have next_i: "int k + 1 + 1 = int (Suc k) + 1" by simp
  show ?case
    unfolding to_mtx_loop.simps [of m idx "int k + 1"] dr
    using k assms(2) at Suc.hyps(1) [OF d, of "to_mtx_put fa idx (int k + 1) (csp_plp.ad (plps ! k))"
        "to_mtx_put fd idx (int k + 1) (csp_plp.dp (plps ! k))"
        "to_mtx_put fo idx (int k + 1) (csp_plp.oth (plps ! k))"]
    by (simp add: next_i is_tmp_to_mtx_put to_mtx_put_lines del: of_nat_Suc)
qed

text \<open>
  For an aggregator whose \<open>nsg\<close> iterators designate the sample states \<open>plps\<close>,
  \<^verbatim>\<open>csp_mplp_to_mtx\<close> returns 0 and appends to each of the three streams the block of its
  metric: this is the line-per-positive-value layout with 1-based sample indices.
\<close>

theorem csp_mplp_to_mtx_lines:
  assumes "\<forall>j<length plps. sg_plp_at m (int j) = Inr (plps ! j)" "nsg m = int (length plps)"
  shows "csp_mplp_to_mtx m fa fd fo idx =
     Inr (0, jf_append fa (mtx_block (is_tmp fa) idx (map csp_plp.ad plps)),
             jf_append fd (mtx_block (is_tmp fd) idx (map csp_plp.dp plps)),
             jf_append fo (mtx_block (is_tmp fo) idx (map csp_plp.oth plps)))"
  using to_mtx_loop_run [OF assms, of 0 idx fa fd fo]
  by (simp add: csp_mplp_to_mtx_def to_mtx_close_def jf_puts_def jf_append_def mtx_block_def)


theorem csp_mplp_to_mtx_lines_witness:
  "sg_plp_at mplp_ac 0 = Inr plp_a \<and> sg_plp_at mplp_ac 1 = Inr plp_c \<and> nsg mplp_ac = 2 \<and>
   csp_mplp_to_mtx mplp_ac tmp_file tmp_file tmp_file 7 =
     Inr (0, \<lparr>is_tmp = True, written = mtx_line_tmp 1 2 @ mtx_line_tmp 2 4 @ [newline]\<rparr>,
             \<lparr>is_tmp = True, written = mtx_line_tmp 1 10 @ mtx_line_tmp 2 7 @ [newline]\<rparr>,
             \<lparr>is_tmp = True, written = [newline]\<rparr>)"
proof -
  have nsg: "nsg mplp_ac = int (length [plp_a, plp_c])" by (simp add: mplp_ac_def mplp_ab_def)
  have at: "\<forall>j<length [plp_a, plp_c]. sg_plp_at mplp_ac (int j) = Inr ([plp_a, plp_c] ! j)"
    using sg_plp_at_ac by (simp add: less_Suc_eq eval_nat_numeral)
  have vals: "csp_plp.ad plp_a = 2" "csp_plp.dp plp_a = 10" "csp_plp.oth plp_a = 0"
    "csp_plp.ad plp_c = 4" "csp_plp.dp plp_c = 7" "csp_plp.oth plp_c = 0"
    by (simp_all add: plp_a_def plp_c_def plp_b_def)
  show ?thesis
    using csp_mplp_to_mtx_lines [OF at nsg, of tmp_file tmp_file tmp_file 7] sg_plp_at_ac nsg
    by (simp add: vals tmp_file_def jf_append_def mtx_block_def mtx_lines_def enumerate_eq_zip)
qed

text \<open>
  For every aggregator with at least one sample group and an iterator array of at most
  \<open>nsg\<close> entries, \<^verbatim>\<open>csp_mplp_str_mtx\<close> and \<^verbatim>\<open>csp_mplp_str_mtx_tmp\<close> end in a fault: they
  read \<open>hsg_iter[nsg]\<close> unless an earlier read has failed.
\<close>

theorem csp_mplp_str_mtx_reads_past_iterators:
  "hsg_iter m = Some iters \<and> int (length iters) \<le> nsg m \<and> 1 \<le> nsg m \<longrightarrow>
     (\<exists>e. csp_mplp_str_mtx m ks_ad ks_dp ks_oth idx = Inl e) \<and>
     (\<exists>e. csp_mplp_str_mtx_tmp m ks_ad ks_dp ks_oth = Inl e)"
  using csp_mplp_str_mtx_faults csp_mplp_str_mtx_tmp_faults by blast

theorem csp_mplp_str_mtx_reads_past_iterators_witness:
  "hsg_iter mplp_ab = Some [0, 1] \<and> nsg mplp_ab = 2 \<and>
   csp_mplp_str_mtx mplp_ab ''a'' ''d'' ''o'' 3 = Inl OutOfBounds \<and>
   csp_mplp_str_mtx_tmp mplp_ab ''a'' ''d'' ''o'' = Inl OutOfBounds"
proof -
  have it: "hsg_iter mplp_ab = Some [0, 1]" and nsg: "nsg mplp_ab = 2"
    by (simp_all add: mplp_ab_def)
  have at: "sg_plp_at mplp_ab 1 = Inr plp_b" "sg_plp_at mplp_ab 2 = Inl OutOfBounds"
    by (simp_all add: sg_plp_at_def mplp_ab_def kh_val_def kh_exist_def)
  have b: "csp_plp.ad plp_b = 0" "csp_plp.dp plp_b = 0" "csp_plp.oth plp_b = 0"
    by (simp_all add: plp_b_def)
  have "csp_mplp_str_mtx mplp_ab ''a'' ''d'' ''o'' 3 = Inl OutOfBounds"
    by (simp add: csp_mplp_str_mtx_def str_mtx_loop.simps [of mplp_ab] nsg at b)
  moreover have "csp_mplp_str_mtx_tmp mplp_ab ''a'' ''d'' ''o'' = Inl OutOfBounds"
    by (simp add: csp_mplp_str_mtx_tmp_def str_mtx_tmp_loop.simps [of mplp_ab] nsg at b)
  ultimately show ?thesis
    using csp_mplp_str_mtx_reads_past_iterators [of mplp_ab "[0, 1]" "''a''" "''d''" "''o''" 3] it nsg
    by simp
qed

subsection \<open>VCF sample field\<close>




lemma c_round_half_even_zero: "c_round_half_even 0 = 0"
  by (simp add: c_round_half_even_def)









lemma plp_a5_field:
  "csp_plp_str_vcf (plp_a\<lparr>ngl := 5\<rparr>) s =
     Inr (0, s @ ''0/0:2:10:0:'' @ fmt_f0 (Dbl (30 / ln 10)) @ '','' @ fmt_f0 (Dbl (70 / ln 10)) @
             '','' @ fmt_f0 (Dbl (200 / ln 10)) @ '',-0,-0:8,0,2,0,0'')"
  by (simp add: csp_plp_str_vcf_def plp_a_def get_idx_of_max_def idx_of_max_loop.simps
        join_arr_to_str_def fmt_ld_def dec_int_def dec_nat.simps digit_char_def Let_def c_times_def
        fmt_f0_def [of NegZero] c_round_half_even_zero)




subsection \<open>SNP list\<close>

lemma snp_of_rec_accepted: "accepted r \<Longrightarrow> snp_of_rec r = Inr (site_of r)"
  by (cases "allele r" rule: list.exhaust [case_names Nil Cons])
     (auto simp: accepted_def snp_of_rec_def site_of_def safe_strdup_def n_allele_def
        csp_snp_init_def ref_str_def alt_str_def letter_or_zero_def Let_def
        length_Suc_conv le_Suc_eq
        split: list.splits option.splits)

lemma snp_of_rec_rejected: "\<not> accepted r \<Longrightarrow> \<exists>why. snp_of_rec r = Inl why"
  by (cases "allele r" rule: list.exhaust [case_names Nil Cons])
     (auto simp: accepted_def snp_of_rec_def safe_strdup_def n_allele_def
        ref_str_def alt_str_def Let_def
        split: list.splits option.splits)


lemma kv_a_push: "kv_a (kv_push l x) = kv_a l @ [x]"
  by (simp add: kv_push_def Let_def)

lemma snp_loop_result:
  "snp_loop ps mem m rs (l, n, msgs) = (fin, (l', n', msgs')) \<Longrightarrow>
     fin = (length rs \<le> mem) \<and>
     kv_a l' = kv_a l @ map site_of (filter accepted (take mem rs)) \<and>
     n' = n + of_nat (length (filter accepted (take mem rs)))"
proof (induction rs arbitrary: mem m l n msgs)
  case Nil
  then show ?case by simp
next
  case (Cons r rs)
  show ?case
  proof (cases mem)
    case 0
    with Cons.prems show ?thesis by auto
  next
    case (Suc mem')
    show ?thesis
    proof (cases "accepted r")
      case True
      with Cons.prems Suc
      have "snp_loop ps mem' (Suc m) rs (kv_push l (site_of r), n + 1, msgs) = (fin, (l', n', msgs'))"
        by (simp add: snp_of_rec_accepted)
      from Cons.IH [OF this] True Suc show ?thesis by (simp add: kv_a_push)
    next
      case False
      then obtain why where why: "snp_of_rec r = Inl why"
        using snp_of_rec_rejected by blast
      with Cons.prems Suc
      have "snp_loop ps mem' (Suc m) rs (l, n, if ps then msgs @ [Skipped m why] else msgs)
              = (fin, (l', n', msgs'))"
        by simp
      from Cons.IH [OF this] False Suc show ?thesis by simp
    qed
  qed
qed

text \<open>
  C6. When the file opens with a readable header, \<^verbatim>\<open>get_snplist_from_vcf\<close> appends to
  the list, in input order, the sites of exactly the accepted records among those that
  were read (all of them unless an allocation fails, \<open>mem\<close> being the number of
  \<^verbatim>\<open>csp_snp_init\<close> calls that succeed); a site stores the zero byte for an absent ref or
  alt. The returned count is the number of sites appended. \<open>*ret\<close> is 0 exactly when
  every record was read and the file ended regularly, so a rejected record never makes
  the call fail.
\<close>

theorem get_snplist_from_vcf_accepts:
  "hdr_ok f \<and> rec_ok f \<longrightarrow>
     (case get_snplist_from_vcf (Some fn) (Some f) mem (Some l0) ps of
        (n, ret, snps', msgs) \<Rightarrow>
          n = of_nat (length (filter accepted (take mem (records f)))) \<and>
          map_option kv_a snps' =
            Some (kv_a l0 @ map site_of (filter accepted (take mem (records f)))) \<and>
          (ret = 0 \<longleftrightarrow> length (records f) \<le> mem \<and> ending f = EndOfFile) \<and>
          (ret = 0 \<or> ret = - 1))"
proof
  assume ok: "hdr_ok f \<and> rec_ok f"
  obtain fin l' n' msgs' where
    loop: "snp_loop ps mem 1 (records f) (l0, 0, []) = (fin, (l', n', msgs'))"
    by (metis prod_cases3 surj_pair)
  from snp_loop_result [OF loop]
  have res: "fin = (length (records f) \<le> mem)"
    "kv_a l' = kv_a l0 @ map site_of (filter accepted (take mem (records f)))"
    "n' = of_nat (length (filter accepted (take mem (records f))))"
    by simp_all
  show "case get_snplist_from_vcf (Some fn) (Some f) mem (Some l0) ps of
        (n, ret, snps', msgs) \<Rightarrow>
          n = of_nat (length (filter accepted (take mem (records f)))) \<and>
          map_option kv_a snps' =
            Some (kv_a l0 @ map site_of (filter accepted (take mem (records f)))) \<and>
          (ret = 0 \<longleftrightarrow> length (records f) \<le> mem \<and> ending f = EndOfFile) \<and>
          (ret = 0 \<or> ret = - 1)"
  proof (cases fin)
    case True
    with ok loop res show ?thesis
      by (cases "ending f") (simp_all add: get_snplist_from_vcf_def kv_resize_def)
  next
    case False
    with ok loop res show ?thesis
      by (simp add: get_snplist_from_vcf_def)
  qed
qed

theorem get_snplist_from_vcf_accepts_witness:
  "hdr_ok vcf_five \<and> rec_ok vcf_five \<and>
   get_snplist_from_vcf (Some ''in.vcf'') (Some vcf_five) 5 (Some kv_init) True =
     (2, 0,
      Some \<lparr>kv_m = 2, kv_a = [\<lparr>chr = ''chr1'', pos = 99, ref = CHR ''A'', alt = CHR ''G''\<rparr>,
                              \<lparr>chr = ''chr2'', pos = 399, ref = CHR ''C'', alt = CHR 0x00\<rparr>]\<rparr>,
      [Skipped 2 AltLen, Skipped 3 NoChrName, Skipped 5 NAllele])"
proof -
  have run: "get_snplist_from_vcf (Some ''in.vcf'') (Some vcf_five) 5 (Some kv_init) True =
     (2, 0,
      Some \<lparr>kv_m = 2, kv_a = [\<lparr>chr = ''chr1'', pos = 99, ref = CHR ''A'', alt = CHR ''G''\<rparr>,
                              \<lparr>chr = ''chr2'', pos = 399, ref = CHR ''C'', alt = CHR 0x00\<rparr>]\<rparr>,
      [Skipped 2 AltLen, Skipped 3 NoChrName, Skipped 5 NAllele])"
    by (simp add: get_snplist_from_vcf_def vcf_five_def rec_ok_ag_def rec_alt2_def rec_nochr_def
          rec_noalt_def rec_three_def snp_of_rec_def safe_strdup_def n_allele_def csp_snp_init_def
          kv_push_def kv_init_def kv_size_def kv_resize_def Let_def eval_nat_numeral)
  show ?thesis
    using get_snplist_from_vcf_accepts
            [where f = vcf_five and fn = "''in.vcf''" and mem = 5 and ?l0.0 = kv_init and ps = True] run
    by (simp add: vcf_five_def)
qed

end
